theory Spec2Isabelle
  imports Main "HOL-Library.Sublist"
begin

section \<open>JavaScript string primitives used by the sources\<close>

text \<open>
  Strings are character lists. \<open>firstIndex s pat\<close> is the position of the first
  occurrence of \<open>pat\<close> in \<open>s\<close>; \<open>indexOf\<close> is \<open>String.prototype.indexOf\<close>, which
  answers \<open>-1\<close> when there is none.
\<close>

fun firstIndex :: "string \<Rightarrow> string \<Rightarrow> nat option" where
  "firstIndex [] pat = (if pat = [] then Some 0 else None)"
| "firstIndex (c # cs) pat =
     (if prefix pat (c # cs) then Some 0 else map_option Suc (firstIndex cs pat))"

definition indexOf :: "string \<Rightarrow> string \<Rightarrow> int" where
  "indexOf s pat = (case firstIndex s pat of None \<Rightarrow> - 1 | Some i \<Rightarrow> int i)"

definition includesStr :: "string \<Rightarrow> string \<Rightarrow> bool" where
  "includesStr s pat = sublist pat s"

definition endsWith :: "string \<Rightarrow> string \<Rightarrow> bool" where
  "endsWith s suf = suffix suf s"

text \<open>\<open>s.slice(b, e)\<close> and \<open>s.slice(b)\<close>: negative indices count from the end, and
  both ends are clamped to the string.\<close>

definition clampIndex :: "nat \<Rightarrow> int \<Rightarrow> nat" where
  "clampIndex len i = (if i < 0 then nat (max (int len + i) 0) else min (nat i) len)"

definition slice :: "string \<Rightarrow> int \<Rightarrow> int \<Rightarrow> string" where
  "slice s b e = take (clampIndex (length s) e - clampIndex (length s) b)
                      (drop (clampIndex (length s) b) s)"

definition sliceFrom :: "string \<Rightarrow> int \<Rightarrow> string" where
  "sliceFrom s b = drop (clampIndex (length s) b) s"

text \<open>\<open>s.replace(pat, rep)\<close> with a string pattern: only the first occurrence is
  replaced. (The sources only pass the empty replacement, which has no \<open>$\<close> pattern.)\<close>

definition replaceFirst :: "string \<Rightarrow> string \<Rightarrow> string \<Rightarrow> string" where
  "replaceFirst s pat rep =
     (case firstIndex s pat of
        None \<Rightarrow> s
      | Some i \<Rightarrow> take i s @ rep @ drop (i + length pat) s)"

text \<open>\<open>s[i]\<close>: the character at an index, \<open>undefined\<close> (here \<open>None\<close>) out of range.\<close>

definition charAt :: "string \<Rightarrow> int \<Rightarrow> char option" where
  "charAt s i = (if 0 \<le> i \<and> i < int (length s) then Some (s ! nat i) else None)"

section \<open>Marker-based injection (inject.ts)\<close>

definition startMarker :: "string \<Rightarrow> string" where
  "startMarker name = ''<!-- DOCS-AGENTS-MD:'' @ name @ ''-START -->''"

definition endMarker :: "string \<Rightarrow> string" where
  "endMarker name = ''<!-- DOCS-AGENTS-MD:'' @ name @ ''-END -->''"

definition hasExistingIndex :: "string \<Rightarrow> string \<Rightarrow> bool" where
  "hasExistingIndex content name = includesStr content (startMarker name)"

lemma firstIndex_le: "firstIndex s pat = Some i \<Longrightarrow> i + length pat \<le> length s"
proof (induction s arbitrary: i)
  case Nil
  then show ?case by (simp split: if_splits)
next
  case (Cons c cs)
  show ?case
  proof (cases "prefix pat (c # cs)")
    case True
    with Cons.prems have "i = 0" by simp
    with prefix_length_le[OF True] show ?thesis by simp
  next
    case False
    with Cons.prems obtain j where "firstIndex cs pat = Some j" "i = Suc j" by auto
    with Cons.IH show ?thesis by fastforce
  qed
qed

lemma firstIndex_None_iff: "firstIndex s pat = None \<longleftrightarrow> \<not> sublist pat s"
  by (induction s) (auto simp: sublist_Cons_right)

lemma includesStr_firstIndex: "includesStr s pat \<longleftrightarrow> firstIndex s pat \<noteq> None"
  by (simp add: includesStr_def firstIndex_None_iff)

lemma length_replaceFirst_le: "length (replaceFirst s pat []) \<le> length s"
  by (auto simp: replaceFirst_def dest: firstIndex_le split: option.splits)

lemma length_replaceFirst_less:
  assumes "includesStr s pat" "pat \<noteq> []"
  shows "length (replaceFirst s pat []) < length s"
proof -
  from assms(1) obtain i where i: "firstIndex s pat = Some i"
    by (auto simp: includesStr_firstIndex)
  have "length (replaceFirst s pat []) = length s - length pat"
    using firstIndex_le[OF i] by (simp add: replaceFirst_def i)
  moreover have "0 < length pat" using assms(2) by simp
  moreover have "length pat \<le> length s" using firstIndex_le[OF i] by simp
  ultimately show ?thesis by linarith
qed

lemma startMarker_nonempty: "startMarker name \<noteq> []"
  by (simp add: startMarker_def)

function injectIndex :: "string \<Rightarrow> string \<Rightarrow> string \<Rightarrow> string" where
  "injectIndex existingContent indexContent name =
     (let start = startMarker name;
          end' = endMarker name;
          wrappedContent = start @ indexContent @ end'
      in if hasExistingIndex existingContent name then
           (let startIdx = indexOf existingContent start;
                endIdx = indexOf existingContent end' + int (length end')
            in if indexOf existingContent end' = - 1 then
                 injectIndex (replaceFirst existingContent (startMarker name) []) indexContent name
               else if endIdx \<le> startIdx then
                 injectIndex
                   (replaceFirst (replaceFirst existingContent (startMarker name) [])
                      (endMarker name) [])
                   indexContent name
               else slice existingContent 0 startIdx @ wrappedContent
                    @ sliceFrom existingContent endIdx)
         else if existingContent = [] then wrappedContent @ ''\<newline>''
         else (let separator =
                     (if endsWith existingContent ''\<newline>'' then ''\<newline>''
                      else ''\<newline>\<newline>'')
               in existingContent @ separator @ wrappedContent @ ''\<newline>''))"
  by pat_completeness auto
termination
proof (relation "measure (\<lambda>(c, p, n). length c)")
  show "wf (measure (\<lambda>(c, p, n). length c))" by simp
next
  fix existingContent indexContent name :: string
  assume "hasExistingIndex existingContent name"
  then show "((replaceFirst existingContent (startMarker name) [], indexContent, name),
              existingContent, indexContent, name) \<in> measure (\<lambda>(c, p, n). length c)"
    by (simp add: hasExistingIndex_def length_replaceFirst_less startMarker_nonempty)
next
  fix existingContent indexContent name :: string
  assume "hasExistingIndex existingContent name"
  then have "length (replaceFirst existingContent (startMarker name) []) < length existingContent"
    by (simp add: hasExistingIndex_def length_replaceFirst_less startMarker_nonempty)
  moreover have "length (replaceFirst (replaceFirst existingContent (startMarker name) [])
                    (endMarker name) [])
                 \<le> length (replaceFirst existingContent (startMarker name) [])"
    by (rule length_replaceFirst_le)
  ultimately show "((replaceFirst (replaceFirst existingContent (startMarker name) [])
                 (endMarker name) [], indexContent, name),
              existingContent, indexContent, name) \<in> measure (\<lambda>(c, p, n). length c)"
    by simp
qed

definition removeIndex :: "string \<Rightarrow> string \<Rightarrow> string" where
  "removeIndex content name =
     (if \<not> hasExistingIndex content name then content
      else
        (let start = startMarker name;
             end' = endMarker name;
             startIdx = indexOf content start;
             endIdx = indexOf content end' + int (length end')
         in if indexOf content end' = - 1 then replaceFirst content start []
            else if endIdx \<le> startIdx then
              replaceFirst (replaceFirst content start []) (endMarker name) []
            else
              (let removeStart =
                     (if startIdx \<ge> 2
                         \<and> charAt content (startIdx - 1) = Some CHR ''\<newline>''
                         \<and> charAt content (startIdx - 2) = Some CHR ''\<newline>''
                      then startIdx - 2 else startIdx);
                   removeEnd =
                     (if endIdx < int (length content)
                         \<and> charAt content endIdx = Some CHR ''\<newline>''
                      then endIdx + 1 else endIdx)
               in slice content 0 removeStart @ sliceFrom content removeEnd)))"

text \<open>The append branch of \<open>injectIndex\<close>, named so that lemmas can refer to it.\<close>

definition appendBlock :: "string \<Rightarrow> string \<Rightarrow> string" where
  "appendBlock doc w =
     (if doc = [] then w @ ''\<newline>''
      else doc @ (if endsWith doc ''\<newline>'' then ''\<newline>'' else ''\<newline>\<newline>'')
           @ w @ ''\<newline>'')"

text \<open>The number of positions of a string at which a pattern occurs (overlapping
  occurrences are all counted); the vocabulary of "exactly one occurrence".\<close>

fun occurrences :: "string \<Rightarrow> string \<Rightarrow> nat" where
  "occurrences pat [] = (if pat = [] then 1 else 0)"
| "occurrences pat (c # cs) = (if prefix pat (c # cs) then 1 else 0) + occurrences pat cs"

text \<open>The two trimmings that \<open>removeIndex\<close> applies around a deleted block, in the
  words of the specification: one blank line before it, one newline after it.\<close>

definition dropBlankLineBefore :: "string \<Rightarrow> string" where
  "dropBlankLineBefore pre =
     (if endsWith pre ''\<newline>\<newline>'' then take (length pre - 2) pre else pre)"

definition dropNewlineAfter :: "string \<Rightarrow> string" where
  "dropNewlineAfter post = (if prefix ''\<newline>'' post then drop 1 post else post)"

text \<open>
  The repair of an orphaned start marker in the words of the specification: the document
  with every start marker of the key stripped (the first occurrence removed, repeatedly),
  and the condition that no end marker of the key is present at any stage of that
  stripping.
\<close>

function stripStartMarkers :: "string \<Rightarrow> string \<Rightarrow> string" where
  "stripStartMarkers key content =
     (if hasExistingIndex content key
      then stripStartMarkers key (replaceFirst content (startMarker key) [])
      else content)"
  by pat_completeness auto
termination
  by (relation "measure (\<lambda>(n, c). length c)")
     (simp_all add: hasExistingIndex_def length_replaceFirst_less startMarker_nonempty)

function endMarkerNeverArises :: "string \<Rightarrow> string \<Rightarrow> bool" where
  "endMarkerNeverArises key content =
     (if includesStr content (endMarker key) then False
      else if hasExistingIndex content key
      then endMarkerNeverArises key (replaceFirst content (startMarker key) [])
      else True)"
  by pat_completeness auto
termination
  by (relation "measure (\<lambda>(n, c). length c)")
     (simp_all add: hasExistingIndex_def length_replaceFirst_less startMarker_nonempty)

text \<open>
  The recursive part of \<open>injectIndex\<close> on its own: the document on which the call that
  finally writes the block works. While the document holds a start marker of the key
  and either no end marker or a first end marker that ends at or before the first start
  marker, the first start marker (and, in the second case, then the first end marker)
  is removed and the test is repeated; the tests are those of \<open>injectIndex\<close>, in its
  order.
\<close>

function repairMarkers :: "string \<Rightarrow> string \<Rightarrow> string" where
  "repairMarkers key content =
     (if hasExistingIndex content key then
        (if indexOf content (endMarker key) = - 1 then
           repairMarkers key (replaceFirst content (startMarker key) [])
         else if indexOf content (endMarker key) + int (length (endMarker key))
                 \<le> indexOf content (startMarker key) then
           repairMarkers key
             (replaceFirst (replaceFirst content (startMarker key) []) (endMarker key) [])
         else content)
      else content)"
  by pat_completeness auto
termination
proof (relation "measure (\<lambda>(n, c). length c)")
  show "wf (measure (\<lambda>(n, c). length c))" by simp
next
  fix key content :: string
  assume "hasExistingIndex content key"
  then show "((key, replaceFirst content (startMarker key) []), key, content)
             \<in> measure (\<lambda>(n, c). length c)"
    by (simp add: hasExistingIndex_def length_replaceFirst_less startMarker_nonempty)
next
  fix key content :: string
  assume "hasExistingIndex content key"
  then have "length (replaceFirst content (startMarker key) []) < length content"
    by (simp add: hasExistingIndex_def length_replaceFirst_less startMarker_nonempty)
  moreover have "length (replaceFirst (replaceFirst content (startMarker key) [])
                    (endMarker key) [])
                 \<le> length (replaceFirst content (startMarker key) [])"
    by (rule length_replaceFirst_le)
  ultimately show "((key, replaceFirst (replaceFirst content (startMarker key) [])
                 (endMarker key) []), key, content) \<in> measure (\<lambda>(n, c). length c)"
    by simp
qed

text \<open>
  The text that the call that finally writes the block puts before the block and after
  it: in the replace branch \<open>slice(0, startIdx)\<close> and \<open>slice(endIdx)\<close> of the repaired
  document, in the append branch the repaired document with its separator (nothing
  for the empty document) and the final newline.
\<close>

definition textBefore :: "string \<Rightarrow> string \<Rightarrow> string" where
  "textBefore key content =
     (let repaired = repairMarkers key content
      in if hasExistingIndex repaired key then
           slice repaired 0 (indexOf repaired (startMarker key))
         else if repaired = [] then []
         else repaired @ (if endsWith repaired ''\<newline>'' then ''\<newline>''
                          else ''\<newline>\<newline>''))"

definition textAfter :: "string \<Rightarrow> string \<Rightarrow> string" where
  "textAfter key content =
     (let repaired = repairMarkers key content
      in if hasExistingIndex repaired key then
           sliceFrom repaired
             (indexOf repaired (endMarker key) + int (length (endMarker key)))
         else ''\<newline>'')"

section \<open>More string and array primitives\<close>

text \<open>\<open>s.split(sep)\<close> for a one-character separator: never empty, \<open>''''\<close> splits
  into one empty part. \<open>parts.join(sep)\<close> is its inverse.\<close>

fun splitOn :: "char \<Rightarrow> string \<Rightarrow> string list" where
  "splitOn sep [] = [[]]"
| "splitOn sep (c # cs) =
     (if c = sep then [] # splitOn sep cs
      else (case splitOn sep cs of [] \<Rightarrow> [[c]] | p # ps \<Rightarrow> (c # p) # ps))"

fun joinWith :: "string \<Rightarrow> string list \<Rightarrow> string" where
  "joinWith sep [] = []"
| "joinWith sep [p] = p"
| "joinWith sep (p # q # ps) = p @ sep @ joinWith sep (q # ps)"

text \<open>\<open>Array.prototype.sort\<close> with a comparator is stable; on a comparator that is a
  total preorder it is the stable insertion sort below.\<close>

fun insertBy :: "('a \<Rightarrow> 'a \<Rightarrow> int) \<Rightarrow> 'a \<Rightarrow> 'a list \<Rightarrow> 'a list" where
  "insertBy cmp x [] = [x]"
| "insertBy cmp x (y # ys) = (if cmp x y \<le> 0 then x # y # ys else y # insertBy cmp x ys)"

definition sortBy :: "('a \<Rightarrow> 'a \<Rightarrow> int) \<Rightarrow> 'a list \<Rightarrow> 'a list" where
  "sortBy cmp xs = foldr (insertBy cmp) xs []"

text \<open>A \<open>Map\<close> iterates in insertion order: an association list with distinct keys
  where \<open>set\<close> overwrites in place or appends.\<close>

fun mapSet :: "'k \<Rightarrow> 'v \<Rightarrow> ('k \<times> 'v) list \<Rightarrow> ('k \<times> 'v) list" where
  "mapSet k v [] = [(k, v)]"
| "mapSet k v ((k', v') # m) = (if k = k' then (k, v) # m else (k', v') # mapSet k v m)"

section \<open>Doc tree builder (tree.ts)\<close>

record DocFile =
  relativePath :: string

datatype DocSection =
  DocSection (name: string) (files: "DocFile list") (subsections: "DocSection list")

text \<open>The values of the map \<open>root\<close>: \<open>{ files, children }\<close>. The field \<open>files\<close> is
  called \<open>entryFiles\<close> here, \<open>files\<close> being the selector of \<open>DocSection\<close>.\<close>

record Entry =
  entryFiles :: "DocFile list"
  children :: "DocFile list"

text \<open>One iteration of the first loop of \<open>buildDocTree\<close>, on the pair of \<open>rootFiles\<close>
  and the map \<open>root\<close>.\<close>

definition addFile ::
  "DocFile list \<times> (string \<times> Entry) list \<Rightarrow> DocFile \<Rightarrow> DocFile list \<times> (string \<times> Entry) list" where
  "addFile st file =
     (let rootFiles = fst st; root = snd st;
          parts = splitOn CHR ''/'' (relativePath file)
      in if length parts < 2 then (rootFiles @ [file], root)
         else
           (let topDir = hd parts;
                entry = (case map_of root topDir of
                           None \<Rightarrow> \<lparr>entryFiles = [], children = []\<rparr>
                         | Some e \<Rightarrow> e);
                entry' =
                  (if length parts = 2 then entry\<lparr>entryFiles := entryFiles entry @ [file]\<rparr>
                   else entry\<lparr>children := children entry
                          @ [\<lparr>relativePath = joinWith ''/'' (drop 1 parts)\<rparr>]\<rparr>)
            in (rootFiles, mapSet topDir entry' root)))"

definition groupFiles :: "DocFile list \<Rightarrow> DocFile list \<times> (string \<times> Entry) list" where
  "groupFiles fs = foldl addFile ([], []) fs"

fun restoreFullPaths :: "DocSection list \<Rightarrow> string \<Rightarrow> DocSection list" where
  "restoreFullPaths [] parentDir = []"
| "restoreFullPaths (DocSection n fs subs # rest) parentDir =
     DocSection n
       (map (\<lambda>f. \<lparr>relativePath = parentDir @ ''/'' @ relativePath f\<rparr>) fs)
       (restoreFullPaths subs (parentDir @ ''/'' @ n))
     # restoreFullPaths rest parentDir"

text \<open>
  The two comparators handed to \<open>sort\<close>. \<open>String.prototype.localeCompare\<close> depends on
  the locale of the host, so it is a parameter of the model: \<open>buildDocTree\<close> is defined
  for every comparison function.
\<close>

definition compareFiles :: "(string \<Rightarrow> string \<Rightarrow> int) \<Rightarrow> DocFile \<Rightarrow> DocFile \<Rightarrow> int" where
  "compareFiles localeCompare a b = localeCompare (relativePath a) (relativePath b)"

definition compareSections ::
  "(string \<Rightarrow> string \<Rightarrow> int) \<Rightarrow> DocSection \<Rightarrow> DocSection \<Rightarrow> int" where
  "compareSections localeCompare a b =
     (if name a = ''.'' then - 1 else if name b = ''.'' then 1
      else localeCompare (name a) (name b))"

text \<open>The measure of the recursion of \<open>buildDocTree\<close>: each group's \<open>children\<close> are
  fewer or shorter paths than the files they come from.\<close>

definition pathsSize :: "DocFile list \<Rightarrow> nat" where
  "pathsSize fs = sum_list (map (\<lambda>f. Suc (length (relativePath f))) fs)"

lemma splitOn_nonempty: "splitOn sep s \<noteq> []"
  by (induction s) (simp_all split: list.splits)

lemma joinWith_Cons_Cons: "joinWith sep ((c # p) # ps) = c # joinWith sep (p # ps)"
  by (cases ps) simp_all

lemma joinWith_splitOn: "joinWith [sep] (splitOn sep s) = s"
proof (induction s)
  case Nil
  then show ?case by simp
next
  case (Cons c cs)
  obtain p ps where r: "splitOn sep cs = p # ps"
    using splitOn_nonempty[of sep cs] by (cases "splitOn sep cs") auto
  show ?case
  proof (cases "c = sep")
    case True
    with Cons r show ?thesis by simp
  next
    case False
    with Cons r show ?thesis by (simp add: joinWith_Cons_Cons)
  qed
qed

lemma length_join_rest:
  assumes "2 \<le> length (splitOn sep s)"
  shows "length (joinWith [sep] (drop 1 (splitOn sep s))) < length s"
proof -
  from assms obtain p q ps where r: "splitOn sep s = p # q # ps"
    by (cases "splitOn sep s"; cases "tl (splitOn sep s)") auto
  have "length (joinWith [sep] (p # q # ps)) = length s"
    using joinWith_splitOn[of sep s] r by simp
  then show ?thesis by (simp add: r)
qed

lemma set_mapSet: "set (mapSet k v m) \<subseteq> insert (k, v) (set m)"
  by (induction m) (auto split: if_splits)

lemma pathsSize_append: "pathsSize (xs @ ys) = pathsSize xs + pathsSize ys"
  by (simp add: pathsSize_def)

lemma addFile_children:
  assumes inv: "\<And>k e. (k, e) \<in> set (snd st) \<Longrightarrow> pathsSize (children e) < n"
    and mem: "(k, e) \<in> set (snd (addFile st f))"
  shows "pathsSize (children e) < n + Suc (length (relativePath f))"
proof (cases "length (splitOn CHR ''/'' (relativePath f)) < 2")
  case True
  with mem have "(k, e) \<in> set (snd st)" by (simp add: addFile_def Let_def)
  from inv[OF this] show ?thesis by simp
next
  case False
  define parts where "parts = splitOn CHR ''/'' (relativePath f)"
  define entry where "entry = (case map_of (snd st) (hd parts) of
                           None \<Rightarrow> \<lparr>entryFiles = [], children = []\<rparr> | Some e \<Rightarrow> e)"
  define entry' where "entry' =
                  (if length parts = 2 then entry\<lparr>entryFiles := entryFiles entry @ [f]\<rparr>
                   else entry\<lparr>children := children entry
                          @ [\<lparr>relativePath = joinWith ''/'' (drop 1 parts)\<rparr>]\<rparr>)"
  have snd_eq: "snd (addFile st f) = mapSet (hd parts) entry' (snd st)"
    using False by (simp add: addFile_def Let_def parts_def entry_def entry'_def)
  have entry_small: "pathsSize (children entry) \<le> n"
  proof (cases "map_of (snd st) (hd parts)")
    case None
    then show ?thesis by (simp add: entry_def pathsSize_def)
  next
    case (Some e0)
    then have "(hd parts, e0) \<in> set (snd st)" by (rule map_of_SomeD)
    from inv[OF this] Some show ?thesis by (simp add: entry_def)
  qed
  have shorter: "length (joinWith ''/'' (drop 1 parts)) < length (relativePath f)"
    unfolding parts_def using False by (intro length_join_rest) simp
  have new_small: "pathsSize (children entry') < n + Suc (length (relativePath f))"
    using entry_small shorter by (simp add: entry'_def pathsSize_append) (simp add: pathsSize_def)
  from mem snd_eq set_mapSet[of "hd parts" entry' "snd st"]
  have "(k, e) = (hd parts, entry') \<or> (k, e) \<in> set (snd st)" by auto
  then show ?thesis
  proof
    assume "(k, e) = (hd parts, entry')"
    with new_small show ?thesis by simp
  next
    assume "(k, e) \<in> set (snd st)"
    from inv[OF this] show ?thesis by simp
  qed
qed

lemma foldl_addFile_children:
  assumes "\<And>k e. (k, e) \<in> set (snd st) \<Longrightarrow> pathsSize (children e) < n"
    and "(k, e) \<in> set (snd (foldl addFile st fs))"
  shows "pathsSize (children e) < n + pathsSize fs"
  using assms
proof (induction fs arbitrary: st n)
  case Nil
  then show ?case by (simp add: pathsSize_def)
next
  case (Cons f fs)
  have "pathsSize (children e) < (n + Suc (length (relativePath f))) + pathsSize fs"
  proof (rule Cons.IH)
    fix k' e' assume "(k', e') \<in> set (snd (addFile st f))"
    with Cons.prems(1) show "pathsSize (children e') < n + Suc (length (relativePath f))"
      by (rule addFile_children)
  next
    show "(k, e) \<in> set (snd (foldl addFile (addFile st f) fs))" using Cons.prems(2) by simp
  qed
  then show ?case by (simp add: pathsSize_def)
qed

lemma groupFiles_children:
  assumes "(k, e) \<in> set (snd (groupFiles fs))"
  shows "pathsSize (children e) < pathsSize fs"
proof -
  have "pathsSize (children e) < 0 + pathsSize fs"
  proof (rule foldl_addFile_children)
    show "(k, e) \<in> set (snd (foldl addFile ([], []) fs))"
      using assms by (simp add: groupFiles_def)
  qed simp
  then show ?thesis by simp
qed

function buildDocTree :: "(string \<Rightarrow> string \<Rightarrow> int) \<Rightarrow> DocFile list \<Rightarrow> DocSection list" where
  "buildDocTree localeCompare fs =
     (let rootFiles = fst (groupFiles fs);
          root = snd (groupFiles fs);
          sections =
            (if length rootFiles > 0
             then [DocSection ''.'' (sortBy (compareFiles localeCompare) rootFiles) []]
             else [])
            @ map (\<lambda>(name, entry).
                     DocSection name (entryFiles entry)
                       (restoreFullPaths (buildDocTree localeCompare (children entry)) name))
                root
      in map (\<lambda>section.
                DocSection (name section)
                  (sortBy (compareFiles localeCompare) (files section))
                  (subsections section))
           (sortBy (compareSections localeCompare) sections))"
  by pat_completeness auto
termination
proof (relation "measure (\<lambda>(c, fs). pathsSize fs)")
  show "wf (measure (\<lambda>(c, fs). pathsSize fs))" by simp
next
  fix localeCompare :: "string \<Rightarrow> string \<Rightarrow> int"
  fix fs :: "DocFile list" and x xa and xb :: "string \<times> Entry" and xc y
  assume "xa = snd (groupFiles fs)" "xb \<in> set xa" "(xc, y) = xb"
  then have "(xc, y) \<in> set (snd (groupFiles fs))" by simp
  then have "pathsSize (children y) < pathsSize fs" by (rule groupFiles_children)
  then show "((localeCompare, children y), localeCompare, fs)
       \<in> measure (\<lambda>(c, fs). pathsSize fs)" by simp
qed

text \<open>\<open>collectAllFiles\<close> of index-generator.ts: the depth-first file collection.\<close>

fun collectAllFiles :: "DocSection list \<Rightarrow> string list" where
  "collectAllFiles [] = []"
| "collectAllFiles (DocSection n fs subs # rest) =
     map relativePath fs @ collectAllFiles subs @ collectAllFiles rest"

text \<open>Evaluation rules: the defining equation, split on the shape of the input so that
  rewriting does not unfold the recursive call under the \<open>\<lambda>\<close>.\<close>

lemma buildDocTree_Nil [code]: "buildDocTree localeCompare [] = []"
  by (subst buildDocTree.simps) (simp add: groupFiles_def sortBy_def del: buildDocTree.simps)

lemma buildDocTree_Cons [code]:
  "buildDocTree localeCompare (f # fs) =
     (let rootFiles = fst (groupFiles (f # fs));
          root = snd (groupFiles (f # fs));
          sections =
            (if length rootFiles > 0
             then [DocSection ''.'' (sortBy (compareFiles localeCompare) rootFiles) []]
             else [])
            @ map (\<lambda>(name, entry).
                     DocSection name (entryFiles entry)
                       (restoreFullPaths (buildDocTree localeCompare (children entry)) name))
                root
      in map (\<lambda>section.
                DocSection (name section)
                  (sortBy (compareFiles localeCompare) (files section))
                  (subsections section))
           (sortBy (compareSections localeCompare) sections))"
  by (rule buildDocTree.simps)

section \<open>Index generator (index-generator.ts)\<close>

text \<open>\<open>DEFAULT_OUTPUT\<close> of constants.ts.\<close>

definition DEFAULT_OUTPUT :: string where
  "DEFAULT_OUTPUT = ''AGENTS.md''"

text \<open>The optional fields of \<open>IndexMeta\<close> are only tested for truthiness, where
  \<open>undefined\<close> and the empty string agree: \<open>optStr\<close> reads both as the empty string.
  The field \<open>name\<close> is called \<open>metaName\<close> here, \<open>name\<close> being the selector of
  \<open>DocSection\<close>.\<close>

record IndexMeta =
  metaName :: string
  docsPath :: string
  version :: "string option"
  outputFile :: "string option"
  libKey :: "string option"
  repo :: "string option"
  repoDocsPath :: "string option"

definition optStr :: "string option \<Rightarrow> string" where
  "optStr v = (case v of None \<Rightarrow> [] | Some s \<Rightarrow> s)"

text \<open>\<open>toLowerCase\<close>, on the letters A to Z (the characters of this model are bytes).\<close>

definition toLowerCase :: "string \<Rightarrow> string" where
  "toLowerCase s =
     map (\<lambda>c. if 65 \<le> (of_char c :: nat) \<and> (of_char c :: nat) \<le> 90
              then char_of ((of_char c :: nat) + 32) else c) s"

text \<open>\<open>s.replace(/c/g, r)\<close> for a one-character pattern: every occurrence is replaced.\<close>

definition replaceAllChar :: "char \<Rightarrow> string \<Rightarrow> string \<Rightarrow> string" where
  "replaceAllChar c r s = concat (map (\<lambda>x. if x = c then r else [x]) s)"

text \<open>\<open>s.lastIndexOf(c)\<close> for a one-character pattern, \<open>-1\<close> when it does not occur. One
  iteration of the loop of \<open>groupByDirectory\<close> follows, on the map \<open>grouped\<close>.\<close>

definition lastIndexOf :: "string \<Rightarrow> char \<Rightarrow> int" where
  "lastIndexOf s c =
     (if c \<in> set s then int (length s) - 1 - int (length (takeWhile (\<lambda>x. x \<noteq> c) (rev s)))
      else - 1)"

definition groupStep :: "(string \<times> string list) list \<Rightarrow> string \<Rightarrow> (string \<times> string list) list" where
  "groupStep grouped filePath =
     (let lastSlash = lastIndexOf filePath CHR ''/'';
          dir = (if lastSlash = - 1 then ''.'' else slice filePath 0 lastSlash);
          fileName = (if lastSlash = - 1 then filePath else sliceFrom filePath (lastSlash + 1))
      in case map_of grouped dir of
           Some existing \<Rightarrow> mapSet dir (existing @ [fileName]) grouped
         | None \<Rightarrow> mapSet dir [fileName] grouped)"

definition groupByDirectory :: "string list \<Rightarrow> (string \<times> string list) list" where
  "groupByDirectory fs = foldl groupStep [] fs"

text \<open>The four parts pushed before the file listing: header, root line, instruction,
  regeneration command.\<close>

definition metaParts :: "IndexMeta \<Rightarrow> string list" where
  "metaParts meta =
     (let versionSuffix =
            (if optStr (version meta) \<noteq> [] then '' v'' @ optStr (version meta) else []);
          target =
            (if optStr (outputFile meta) \<noteq> [] then optStr (outputFile meta) else DEFAULT_OUTPUT);
          regenCmd =
            ''npx docs-agents-md''
            @ (if optStr (libKey meta) \<noteq> [] then '' --lib '' @ optStr (libKey meta)
               else if optStr (repo meta) \<noteq> [] then
                 '' --repo '' @ optStr (repo meta) @ '' --name '' @ toLowerCase (metaName meta)
                 @ (if optStr (repoDocsPath meta) \<noteq> []
                    then '' --docs-path '' @ optStr (repoDocsPath meta) else [])
               else [])
            @ '' --output '' @ target
      in [''['' @ metaName meta @ '' Docs Index'' @ versionSuffix @ '']'',
          ''root: '' @ docsPath meta,
          ''IMPORTANT: Prefer retrieval-led reasoning over pre-training-led reasoning for any ''
            @ metaName meta @ '' tasks.'',
          ''If docs missing, run: '' @ regenCmd])"

definition safeFile :: "string \<Rightarrow> string" where
  "safeFile f =
     replaceAllChar CHR ''}'' ''%7D''
       (replaceAllChar CHR ''{'' ''%7B''
          (replaceAllChar CHR '','' ''%2C''
             (replaceAllChar CHR ''|'' ''%7C'' f)))"

definition generateIndex :: "DocSection list \<Rightarrow> IndexMeta \<Rightarrow> string" where
  "generateIndex sections meta =
     joinWith ''|''
       (metaParts meta
        @ map (\<lambda>(dir, files). dir @ '':{'' @ joinWith '','' (map safeFile files) @ ''}'')
            (groupByDirectory (collectAllFiles sections)))"

text \<open>The escaping in the words of the specification: one pass over the name, each
  of the four delimiter characters replaced by its percent code.\<close>

definition percentEscape :: "string \<Rightarrow> string" where
  "percentEscape f =
     concat (map (\<lambda>c. if c = CHR ''|'' then ''%7C'' else if c = CHR '','' then ''%2C''
                        else if c = CHR ''{'' then ''%7B'' else if c = CHR ''}'' then ''%7D''
                        else [c]) f)"

section \<open>Docs path detector (docs-detector.ts)\<close>

definition EXCLUDED_DIRS :: "string list" where
  "EXCLUDED_DIRS =
     [''node_modules'', ''.github'', ''.git'', ''examples'', ''example'', ''__tests__'',
      ''test'', ''tests'', ''__mocks__'', ''fixtures'', ''.vitepress'', ''public'',
      ''images'', ''icons'', ''logo'', ''snippets'']"

definition DOC_EXTENSIONS :: "string list" where
  "DOC_EXTENSIONS = [''.md'', ''.mdx'']"

definition DOCS_LIKE_NAMES :: "string list" where
  "DOCS_LIKE_NAMES =
     [''docs'', ''doc'', ''documentation'', ''content'', ''guide'', ''guides'', ''wiki'',
      ''reference'', ''manual'', ''pages'']"

text \<open>
  \<open>path.posix.extname\<close> of Node: the extension of the last path component (trailing
  slashes ignored), from its last dot; empty when the component has no dot, starts with
  its only dot, or is \<open>..\<close>.
\<close>

definition extname :: "string \<Rightarrow> string" where
  "extname path =
     (let seg = rev (takeWhile (\<lambda>c. c \<noteq> CHR ''/'')
                       (dropWhile (\<lambda>c. c = CHR ''/'') (rev path)));
          ext = CHR ''.'' # rev (takeWhile (\<lambda>c. c \<noteq> CHR ''.'') (rev seg));
          pre = take (length seg - length ext) seg
      in if CHR ''.'' \<notin> set seg then []
         else if pre = [] then []
         else if pre = ''.'' \<and> ext = ''.'' then []
         else ext)"

text \<open>
  \<open>path.posix.dirname\<close> of Node: the path up to the last slash that is followed by a
  component (trailing slashes ignored); \<open>.\<close> when there is none.
\<close>

definition dirname :: "string \<Rightarrow> string" where
  "dirname path =
     (if path = [] then ''.''
      else
        (let hasRoot = (hd path = CHR ''/'');
             rem = dropWhile (\<lambda>c. c \<noteq> CHR ''/'')
                     (dropWhile (\<lambda>c. c = CHR ''/'') (rev (tl path)));
             end' = length rem
         in if rem = [] then (if hasRoot then ''/'' else ''.'')
            else if hasRoot \<and> end' = 1 then ''//''
            else take end' path))"

text \<open>\<open>map.get(k) || 0\<close> on a map of counts.\<close>

definition getOr0 :: "(string \<times> int) list \<Rightarrow> string \<Rightarrow> int" where
  "getOr0 m k = (case map_of m k of None \<Rightarrow> 0 | Some v \<Rightarrow> v)"

text \<open>The body of the first loop of \<open>detectDocsPath\<close>: one path, on the map \<open>dirCounts\<close>.\<close>

definition countStep :: "(string \<times> int) list \<Rightarrow> string \<Rightarrow> (string \<times> int) list" where
  "countStep dirCounts filePath =
     (if toLowerCase (extname filePath) \<notin> set DOC_EXTENSIONS then dirCounts
      else if dirname filePath = ''.'' then dirCounts
      else if list_ex (\<lambda>p. p \<in> set EXCLUDED_DIRS) (splitOn CHR ''/'' (dirname filePath))
        then dirCounts
      else mapSet (dirname filePath) (getOr0 dirCounts (dirname filePath) + 1) dirCounts)"

text \<open>The body of the inner aggregation loop, for the index \<open>i\<close>, and the outer loop's
  body for one entry of \<open>dirCounts\<close>.\<close>

definition addAncestor ::
  "string list \<Rightarrow> int \<Rightarrow> (string \<times> int) list \<Rightarrow> nat \<Rightarrow> (string \<times> int) list" where
  "addAncestor parts count aggregated i =
     (if parts ! (i - 1) \<in> set EXCLUDED_DIRS then aggregated
      else mapSet (joinWith ''/'' (take i parts))
             (getOr0 aggregated (joinWith ''/'' (take i parts)) + count) aggregated)"

definition aggregateDir :: "(string \<times> int) list \<Rightarrow> string \<times> int \<Rightarrow> (string \<times> int) list" where
  "aggregateDir aggregated entry =
     foldl (addAncestor (splitOn CHR ''/'' (fst entry)) (snd entry)) aggregated
       [1 ..< Suc (length (splitOn CHR ''/'' (fst entry)))]"

text \<open>The records of \<open>candidates\<close> and the comparator they are sorted with.\<close>

record Candidate =
  dir :: string
  count :: int
  depth :: int

definition compareCandidates :: "Candidate \<Rightarrow> Candidate \<Rightarrow> int" where
  "compareCandidates a b =
     (let aLeaf = last (splitOn CHR ''/'' (dir a));
          bLeaf = last (splitOn CHR ''/'' (dir b));
          aBonus = (if aLeaf \<in> set DOCS_LIKE_NAMES then 1 else 0);
          bBonus = (if bLeaf \<in> set DOCS_LIKE_NAMES then 1 else 0)
      in if bBonus \<noteq> aBonus then bBonus - aBonus
         else if count b \<noteq> count a then count b - count a
         else depth a - depth b)"

text \<open>The stages of \<open>detectDocsPath\<close>: the map \<open>dirCounts\<close> after the first loop, the map
  \<open>aggregated\<close> after the second, the filtered \<open>candidates\<close>, and the function itself.\<close>

definition dirCountsOf :: "string list \<Rightarrow> (string \<times> int) list" where
  "dirCountsOf paths = foldl countStep [] paths"

definition aggregatedOf :: "(string \<times> int) list \<Rightarrow> (string \<times> int) list" where
  "aggregatedOf dirCounts = foldl aggregateDir [] dirCounts"

definition candidatesOf :: "(string \<times> int) list \<Rightarrow> Candidate list" where
  "candidatesOf aggregated =
     map (\<lambda>(d, c). \<lparr>dir = d, count = c, depth = int (length (splitOn CHR ''/'' d))\<rparr>)
       (filter (\<lambda>(d, c). c \<ge> 3) aggregated)"

definition detectDocsPath :: "string list \<Rightarrow> string option" where
  "detectDocsPath paths =
     (if dirCountsOf paths = [] then None
      else if candidatesOf (aggregatedOf (dirCountsOf paths)) = [] then None
      else (case sortBy compareCandidates (candidatesOf (aggregatedOf (dirCountsOf paths))) of
              [] \<Rightarrow> None
            | c # _ \<Rightarrow> Some (dir c)))"

text \<open>The vocabulary of the specification of the detector: a path qualifies when it has
  a documentation extension, is not at the root and has no excluded directory segment;
  a directory is credited to itself and to each of its ancestors whose own last segment
  is not excluded; the cumulative count of a directory is the number of qualifying
  paths credited to it.\<close>

definition qualifies :: "string \<Rightarrow> bool" where
  "qualifies p \<longleftrightarrow>
     toLowerCase (extname p) \<in> set DOC_EXTENSIONS \<and> dirname p \<noteq> ''.''
     \<and> \<not> list_ex (\<lambda>s. s \<in> set EXCLUDED_DIRS) (splitOn CHR ''/'' (dirname p))"

definition selfAndAncestors :: "string \<Rightarrow> string list" where
  "selfAndAncestors d =
     map (joinWith ''/'')
       (filter (\<lambda>ps. last ps \<notin> set EXCLUDED_DIRS) (tl (prefixes (splitOn CHR ''/'' d))))"

definition cumulativeCount :: "string list \<Rightarrow> string \<Rightarrow> int" where
  "cumulativeCount paths a =
     int (length (filter (\<lambda>p. qualifies p \<and> a \<in> set (selfAndAncestors (dirname p))) paths))"

text \<open>Two abbreviations for the proofs: the directories the inner aggregation loop
  writes to over a list of indices, and a sum over a map of counts weighted by a
  function of the key.\<close>

definition visited :: "string list \<Rightarrow> nat list \<Rightarrow> string list" where
  "visited parts is =
     map (\<lambda>i. joinWith ''/'' (take i parts))
       (filter (\<lambda>i. parts ! (i - 1) \<notin> set EXCLUDED_DIRS) is)"

definition weighted :: "(string \<times> int) list \<Rightarrow> (string \<Rightarrow> int) \<Rightarrow> int" where
  "weighted m g = sum_list (map (\<lambda>(d, c). c * g d) m)"

section \<open>Properties of the marker injector\<close>

declare injectIndex.simps [simp del]

lemma indexOf_neg_iff: "indexOf s pat = - 1 \<longleftrightarrow> firstIndex s pat = None"
  by (simp add: indexOf_def split: option.splits)

lemma indexOf_Some: "firstIndex s pat = Some i \<Longrightarrow> indexOf s pat = int i"
  by (simp add: indexOf_def)

lemma slice_0_nat: "i \<le> length s \<Longrightarrow> slice s 0 (int i) = take i s"
  by (simp add: slice_def clampIndex_def)

lemma sliceFrom_nat: "sliceFrom s (int i) = drop i s"
  by (cases "i \<le> length s") (simp_all add: sliceFrom_def clampIndex_def min_def)

lemma inject_absent:
  "\<not> hasExistingIndex c k \<Longrightarrow>
   injectIndex c p k = appendBlock c (startMarker k @ p @ endMarker k)"
  by (subst injectIndex.simps) (simp add: Let_def appendBlock_def)

lemma inject_no_end:
  "hasExistingIndex c k \<Longrightarrow> firstIndex c (endMarker k) = None \<Longrightarrow>
   injectIndex c p k = injectIndex (replaceFirst c (startMarker k) []) p k"
  by (subst injectIndex.simps) (simp add: Let_def indexOf_neg_iff)

lemma inject_disorder:
  "firstIndex c (startMarker k) = Some i \<Longrightarrow> firstIndex c (endMarker k) = Some j \<Longrightarrow>
   j + length (endMarker k) \<le> i \<Longrightarrow>
   injectIndex c p k =
     injectIndex (replaceFirst (replaceFirst c (startMarker k) []) (endMarker k) []) p k"
  by (subst injectIndex.simps)
     (simp add: Let_def indexOf_def hasExistingIndex_def includesStr_firstIndex)

lemma inject_well_formed:
  assumes "firstIndex c (startMarker k) = Some i" "firstIndex c (endMarker k) = Some j"
    and "i < j + length (endMarker k)"
  shows "injectIndex c p k =
     take i c @ startMarker k @ p @ endMarker k @ drop (j + length (endMarker k)) c"
proof -
  have "i \<le> length c" using firstIndex_le[OF assms(1)] by simp
  then have "slice c 0 (int i) = take i c" by (rule slice_0_nat)
  moreover have "sliceFrom c (int j + int (length (endMarker k))) = drop (j + length (endMarker k)) c"
    using sliceFrom_nat[of c "j + length (endMarker k)"] by simp
  ultimately show ?thesis
    using assms
    by (subst injectIndex.simps)
       (simp add: Let_def indexOf_def hasExistingIndex_def includesStr_firstIndex)
qed

lemma injectIndex_cases [consumes 0, case_names absent no_end disorder well_formed]:
  assumes "\<And>c. \<not> hasExistingIndex c k \<Longrightarrow> P c"
    and "\<And>c. hasExistingIndex c k \<Longrightarrow> firstIndex c (endMarker k) = None \<Longrightarrow>
           P (replaceFirst c (startMarker k) []) \<Longrightarrow> P c"
    and "\<And>c i j. firstIndex c (startMarker k) = Some i \<Longrightarrow>
           firstIndex c (endMarker k) = Some j \<Longrightarrow> j + length (endMarker k) \<le> i \<Longrightarrow>
           P (replaceFirst (replaceFirst c (startMarker k) []) (endMarker k) []) \<Longrightarrow> P c"
    and "\<And>c i j. firstIndex c (startMarker k) = Some i \<Longrightarrow>
           firstIndex c (endMarker k) = Some j \<Longrightarrow> i < j + length (endMarker k) \<Longrightarrow> P c"
  shows "P c"
proof (induction "length c" arbitrary: c rule: less_induct)
  case less
  show ?case
  proof (cases "hasExistingIndex c k")
    case False
    then show ?thesis by (rule assms(1))
  next
    case True
    then obtain i where i: "firstIndex c (startMarker k) = Some i"
      by (auto simp: hasExistingIndex_def includesStr_firstIndex)
    have shorter: "length (replaceFirst c (startMarker k) []) < length c"
      using True by (simp add: hasExistingIndex_def length_replaceFirst_less startMarker_nonempty)
    show ?thesis
    proof (cases "firstIndex c (endMarker k)")
      case None
      from True None less(1)[OF shorter] show ?thesis by (rule assms(2))
    next
      case (Some j)
      show ?thesis
      proof (cases "j + length (endMarker k) \<le> i")
        case le: True
        have "length (replaceFirst (replaceFirst c (startMarker k) []) (endMarker k) []) < length c"
          using shorter length_replaceFirst_le[of "replaceFirst c (startMarker k) []" "endMarker k"]
          by linarith
        from i Some le less(1)[OF this] show ?thesis by (rule assms(3))
      next
        case False
        then have "i < j + length (endMarker k)" by simp
        with i Some show ?thesis by (rule assms(4))
      qed
    qed
  qed
qed

lemma sublist_appendBlock: "sublist w (appendBlock c w)"
proof -
  have "\<exists>a b. appendBlock c w = a @ w @ b"
    unfolding appendBlock_def
    by (metis append.assoc append_Nil)
  then show ?thesis by (auto simp: sublist_def)
qed

lemma inject_contains_wrapped:
  "sublist (startMarker k @ p @ endMarker k) (injectIndex doc p k)"
proof (induction doc rule: injectIndex_cases[where k = k])
  case (absent c)
  then show ?case by (simp add: inject_absent sublist_appendBlock)
next
  case (no_end c)
  then show ?case by (simp add: inject_no_end)
next
  case (disorder c i j)
  then show ?case by (simp add: inject_disorder)
next
  case (well_formed c i j)
  have "sublist (startMarker k @ p @ endMarker k)
          (take i c @ (startMarker k @ p @ endMarker k) @ drop (j + length (endMarker k)) c)"
    by (rule sublist_appendI)
  then show ?case by (simp add: inject_well_formed[OF well_formed])
qed


lemma occurrences_zero_iff: "occurrences pat s = 0 \<longleftrightarrow> \<not> sublist pat s"
proof (induction s)
  case Nil
  then show ?case by simp
next
  case (Cons c cs)
  have "sublist pat (c # cs) \<longleftrightarrow> prefix pat (c # cs) \<or> sublist pat cs"
    by (rule sublist_Cons_right)
  with Cons show ?case by simp
qed

lemma occurrences_skip:
  "(\<And>i. i < length u \<Longrightarrow> \<not> prefix pat (drop i u @ v)) \<Longrightarrow>
   occurrences pat (u @ v) = occurrences pat v"
proof (induction u)
  case Nil
  then show ?case by simp
next
  case (Cons x u)
  have "\<not> prefix pat ((x # u) @ v)" using Cons.prems[of 0] by simp
  moreover have "occurrences pat (u @ v) = occurrences pat v"
  proof (rule Cons.IH)
    fix i assume "i < length u"
    then show "\<not> prefix pat (drop i u @ v)" using Cons.prems[of "Suc i"] by simp
  qed
  ultimately show ?case by simp
qed

lemma rotate_eq_last: "x # w = w @ [c] \<Longrightarrow> c = x"
  by (induction w arbitrary: x) auto

lemma sublist_same_length:
  assumes "sublist xs ys" "length xs = length ys"
  shows "xs = ys"
proof -
  from assms(1) obtain ps ss where ys: "ys = ps @ xs @ ss" by (auto simp: sublist_def)
  with assms(2) have "ps = []" "ss = []" by simp_all
  with ys show ?thesis by simp
qed

lemma occurrences_self_snoc:
  assumes "w \<noteq> []" "hd w \<noteq> c"
  shows "occurrences w (w @ [c]) = 1"
proof -
  from assms(1) obtain x w' where w: "w = x # w'" by (cases w) auto
  have "\<not> sublist w (w' @ [c])"
  proof
    assume "sublist w (w' @ [c])"
    then have "w = w' @ [c]" by (rule sublist_same_length) (simp add: w)
    then have "x # w' = w' @ [c]" by (simp add: w)
    then have "c = x" by (rule rotate_eq_last)
    with assms(2) w show False by simp
  qed
  then have "occurrences w (w' @ [c]) = 0" by (simp add: occurrences_zero_iff)
  then show ?thesis by (simp add: w)
qed

lemma startMarker_hd: "hd (startMarker k) = CHR ''<''"
  by (simp add: startMarker_def)

lemma prefix_crossing:
  assumes "prefix (s @ r) (u @ c # v)" "\<not> sublist s u" 
  shows "c \<in> set s"
proof -
  have "prefix s (s @ r)" by simp
  from this assms(1) have ps: "prefix s (u @ c # v)" by (rule prefix_order.trans)
  then have "prefix s u \<or> (\<exists>us. s = u @ us \<and> prefix us (c # v))" by (simp add: prefix_append)
  moreover have "\<not> prefix s u" using assms(2) by auto
  ultimately obtain us where us: "s = u @ us" "prefix us (c # v)" by blast
  have "us \<noteq> []" using us(1) assms(2) by auto
  with us(2) obtain us' where "us = c # us'" by (cases us) auto
  with us(1) show ?thesis by simp
qed

lemma prefix_hd_in:
  assumes "w \<noteq> []" "i < length u" "prefix w (drop i u @ v)"
  shows "hd w \<in> set u"
proof -
  from assms(2) have "drop i u = u ! i # drop (Suc i) u" by (simp add: Cons_nth_drop_Suc)
  with assms(1,3) have "hd w = u ! i" by (cases w) simp_all
  with assms(2) show ?thesis by simp
qed

lemma occurrences_appendBlock:
  assumes nos: "\<not> sublist (startMarker k) d" and nl: "CHR ''\<newline>'' \<notin> set (startMarker k)"
  shows "occurrences (startMarker k @ r) (appendBlock d (startMarker k @ r)) = 1"
proof -
  define w where "w = startMarker k @ r"
  have w_ne: "w \<noteq> []" by (simp add: w_def startMarker_nonempty)
  have hd_w: "hd w = CHR ''<''" by (simp add: w_def startMarker_nonempty startMarker_hd)
  have base: "occurrences w (w @ ''\<newline>'') = 1"
    using w_ne by (rule occurrences_self_snoc) (simp add: hd_w)
  have sep: "occurrences w (sep @ w @ ''\<newline>'') = 1"
    if "set sep \<subseteq> {CHR ''\<newline>''}" for sep
  proof -
    have "occurrences w (sep @ w @ ''\<newline>'') = occurrences w (w @ ''\<newline>'')"
    proof (rule occurrences_skip)
      fix i assume i: "i < length sep"
      show "\<not> prefix w (drop i sep @ w @ ''\<newline>'')"
      proof
        assume "prefix w (drop i sep @ w @ ''\<newline>'')"
        with w_ne i have "hd w \<in> set sep" by (rule prefix_hd_in)
        with that hd_w show False by auto
      qed
    qed
    with base show ?thesis by simp
  qed
  show ?thesis
  proof (cases "d = []")
    case True
    with base show ?thesis by (simp add: appendBlock_def w_def)
  next
    case False
    define sep where "sep = (if endsWith d ''\<newline>'' then ''\<newline>'' else ''\<newline>\<newline>'')"
    have sep_set: "set sep \<subseteq> {CHR ''\<newline>''}" by (simp add: sep_def)
    have sep_ne: "sep \<noteq> []" by (simp add: sep_def)
    have ab: "appendBlock d w = d @ (sep @ w @ ''\<newline>'')"
      using False by (simp add: appendBlock_def sep_def)
    obtain t where t: "sep @ w @ ''\<newline>'' = CHR ''\<newline>'' # t"
      using sep_set sep_ne by (cases sep) auto
    have "occurrences w (d @ (sep @ w @ ''\<newline>'')) = occurrences w (sep @ w @ ''\<newline>'')"
    proof (rule occurrences_skip)
      fix i assume "i < length d"
      show "\<not> prefix w (drop i d @ sep @ w @ ''\<newline>'')"
      proof
        assume "prefix w (drop i d @ sep @ w @ ''\<newline>'')"
        then have p: "prefix (startMarker k @ r) (drop i d @ CHR ''\<newline>'' # t)"
          unfolding t by (simp add: w_def)
        have "\<not> sublist (startMarker k) (drop i d)"
        proof
          assume "sublist (startMarker k) (drop i d)"
          then have "sublist (startMarker k) d"
            by (rule sublist_order.order.trans) (rule sublist_drop)
          with nos show False by simp
        qed
        with p have "CHR ''\<newline>'' \<in> set (startMarker k)" by (rule prefix_crossing)
        with nl show False by simp
      qed
    qed
    with sep[OF sep_set] ab show ?thesis by (simp add: w_def)
  qed
qed

text \<open>
  Claim C1 (idempotence of injection). The claim fails on the code: a document that
  holds an end marker for the key but no start marker is appended to by the first call;
  the second call then sees the end marker before the start marker, strips both and
  appends again, so the two results differ. The theorem evaluates both calls on the
  document that is just the end marker for \<open>lib\<close>.
\<close>

theorem inject_twice_orphan_end:
  "injectIndex ''<!-- DOCS-AGENTS-MD:lib-END -->'' ''X'' ''lib'' =
     ''<!-- DOCS-AGENTS-MD:lib-END -->\<newline>\<newline><!-- DOCS-AGENTS-MD:lib-START -->X<!-- DOCS-AGENTS-MD:lib-END -->\<newline>''
   \<and> injectIndex (injectIndex ''<!-- DOCS-AGENTS-MD:lib-END -->'' ''X'' ''lib'') ''X'' ''lib'' =
     ''\<newline>\<newline>X<!-- DOCS-AGENTS-MD:lib-END -->\<newline>\<newline><!-- DOCS-AGENTS-MD:lib-START -->X<!-- DOCS-AGENTS-MD:lib-END -->\<newline>''
   \<and> injectIndex (injectIndex ''<!-- DOCS-AGENTS-MD:lib-END -->'' ''X'' ''lib'') ''X'' ''lib''
       \<noteq> injectIndex ''<!-- DOCS-AGENTS-MD:lib-END -->'' ''X'' ''lib''"
  by code_simp

text \<open>
  Claim C2 (exactly one block after injection), counterexample: only the first block of
  the key is replaced, so a document that already holds a second block with the same
  payload ends with two occurrences of start marker, payload, end marker.
\<close>

theorem inject_two_blocks_counterexample:
  "occurrences (startMarker ''lib'' @ ''X'' @ endMarker ''lib'')
     (injectIndex
        (startMarker ''lib'' @ ''old'' @ endMarker ''lib'' @ ''\<newline>''
         @ startMarker ''lib'' @ ''X'' @ endMarker ''lib'' @ ''\<newline>'')
        ''X'' ''lib'') = 2"
  by code_simp

lemma firstIndex_prefix: "firstIndex s pat = Some i \<Longrightarrow> prefix pat (drop i s)"
proof (induction s arbitrary: i)
  case Nil
  then show ?case by (simp split: if_splits)
next
  case (Cons c cs)
  show ?case
  proof (cases "prefix pat (c # cs)")
    case True
    with Cons.prems show ?thesis by simp
  next
    case False
    with Cons.prems obtain j where j: "firstIndex cs pat = Some j" "i = Suc j" by auto
    from Cons.IH[OF j(1)] j(2) show ?thesis by simp
  qed
qed

lemma firstIndex_minimal:
  "firstIndex s pat = Some i \<Longrightarrow> q < i \<Longrightarrow> \<not> prefix pat (drop q s)"
proof (induction s arbitrary: i q)
  case Nil
  then show ?case by (simp split: if_splits)
next
  case (Cons c cs)
  from Cons.prems have np: "\<not> prefix pat (c # cs)" by (auto split: if_splits)
  with Cons.prems obtain j where j: "firstIndex cs pat = Some j" "i = Suc j" by auto
  show ?case
  proof (cases q)
    case 0
    with np show ?thesis by simp
  next
    case (Suc q')
    with Cons.prems(2) j(2) have "q' < j" by simp
    from Cons.IH[OF j(1) this] Suc show ?thesis by simp
  qed
qed

lemma prefix_within: "prefix s (a @ r) \<Longrightarrow> length s \<le> length a \<Longrightarrow> prefix s a"
  by (rule prefix_length_prefix[of s "a @ r" a]) simp_all

lemma no_occurrence_before_first:
  assumes i: "firstIndex doc s = Some i" and q: "q < i"
  shows "\<not> prefix (s @ r) (drop q (take i doc) @ s @ t)"
proof
  assume "prefix (s @ r) (drop q (take i doc) @ s @ t)"
  moreover have "prefix s (s @ r)" by simp
  ultimately have "prefix s ((drop q (take i doc) @ s) @ t)"
    using prefix_order.trans by fastforce
  then have ps: "prefix s (drop q (take i doc) @ s)"
    by (rule prefix_within) simp
  from firstIndex_prefix[OF i] obtain u where u: "drop i doc = s @ u"
    by (auto simp: prefix_def)
  have "i \<le> length doc" using firstIndex_le[OF i] by simp
  with q have "drop q doc = drop q (take i doc) @ drop i doc"
    by (metis append_take_drop_id drop_append length_take less_imp_le_nat min.absorb2
        diff_is_0_eq drop_0)
  then have "drop q doc = (drop q (take i doc) @ s) @ u" by (simp add: u)
  with ps have "prefix s (drop q doc)" by (metis prefix_prefix)
  with firstIndex_minimal[OF i q] show False by simp
qed

lemma sublist_skip_no_head:
  assumes "s \<noteq> []" "hd s \<notin> set a" "sublist s (a @ b)"
  shows "sublist s b"
  using assms(2,3)
proof (induction a)
  case Nil
  then show ?case by simp
next
  case (Cons x a)
  from Cons.prems(2) have "prefix s (x # a @ b) \<or> sublist s (a @ b)"
    by (simp add: sublist_Cons_right)
  then show ?case
  proof
    assume "prefix s (x # a @ b)"
    with assms(1) have "hd s = x" by (cases s) auto
    with Cons.prems(1) show ?thesis by simp
  next
    assume "sublist s (a @ b)"
    with Cons.IH Cons.prems(1) show ?thesis by simp
  qed
qed

lemma sublist_crossing_head:
  assumes s: "s = c # s'" "c \<notin> set s'" and b: "b = c # b'" and sub: "sublist s (a @ b)"
  shows "sublist s a \<or> prefix s b \<or> sublist s b'"
proof -
  from sub have "sublist s a \<or> sublist s b
      \<or> (\<exists>s1 s2. s = s1 @ s2 \<and> suffix s1 a \<and> prefix s2 b)"
    by (simp add: sublist_append)
  then consider "sublist s a" | "sublist s b"
    | s1 s2 where "s = s1 @ s2" "suffix s1 a" "prefix s2 b" by blast
  then show ?thesis
  proof cases
    case 1
    then show ?thesis by simp
  next
    case 2
    then show ?thesis unfolding b by (simp add: sublist_Cons_right)
  next
    case (3 s1 s2)
    show ?thesis
    proof (cases "s1 = []")
      case True
      with 3 show ?thesis by simp
    next
      case False
      show ?thesis
      proof (cases "s2 = []")
        case True
        with 3 have "suffix s a" by simp
        then have "sublist s a" by (rule suffix_imp_sublist)
        then show ?thesis by simp
      next
        case s2: False
        with 3(3) have "hd s2 = c" unfolding b by (cases s2) auto
        with s2 have "c \<in> set s2" by (cases s2) auto
        moreover from False 3(1) s(1) have "set s2 \<subseteq> set s'" by (cases s1) auto
        ultimately show ?thesis using s(2) by blast
      qed
    qed
  qed
qed

lemma startMarker_Cons:
  "startMarker k = CHR ''<'' # (''!-- DOCS-AGENTS-MD:'' @ k @ ''-START -->'')"
  by (simp add: startMarker_def)

lemma startMarker_not_prefix_endMarker: "\<not> prefix (startMarker k) (endMarker k @ t)"
  by (simp add: startMarker_def endMarker_def)

lemma no_start_after_block_start:
  assumes k: "CHR ''<'' \<notin> set k"
    and p: "\<not> sublist (startMarker k) p"
    and post: "\<not> sublist (startMarker k) post"
  shows "\<not> sublist (startMarker k) (tl (startMarker k @ p @ endMarker k @ post))"
proof
  define S' where "S' = ''!-- DOCS-AGENTS-MD:'' @ k @ ''-START -->''"
  define E' where "E' = ''!-- DOCS-AGENTS-MD:'' @ k @ ''-END -->''"
  have S: "startMarker k = CHR ''<'' # S'" by (simp add: S'_def startMarker_def)
  have E: "endMarker k = CHR ''<'' # E'" by (simp add: E'_def endMarker_def)
  have nS: "CHR ''<'' \<notin> set S'" using k by (simp add: S'_def)
  have nE: "CHR ''<'' \<notin> set E'" using k by (simp add: E'_def)
  have ne: "startMarker k \<noteq> []" by (rule startMarker_nonempty)
  have hd: "hd (startMarker k) = CHR ''<''" by (rule startMarker_hd)
  assume "sublist (startMarker k) (tl (startMarker k @ p @ endMarker k @ post))"
  then have a: "sublist (startMarker k) (S' @ (p @ endMarker k @ post))" by (simp add: S)
  have "hd (startMarker k) \<notin> set S'" by (simp add: hd nS)
  from ne this a have "sublist (startMarker k) (p @ endMarker k @ post)"
    by (rule sublist_skip_no_head)
  then have "sublist (startMarker k) (p @ (CHR ''<'' # E' @ post))" by (simp add: E)
  with S nS have "sublist (startMarker k) p \<or> prefix (startMarker k) (CHR ''<'' # E' @ post)
      \<or> sublist (startMarker k) (E' @ post)"
    by (intro sublist_crossing_head[where c="CHR ''<''" and s'=S']) simp_all
  moreover have "\<not> prefix (startMarker k) (CHR ''<'' # E' @ post)"
    using startMarker_not_prefix_endMarker[of k post] by (simp add: E)
  ultimately have b: "sublist (startMarker k) (E' @ post)" using p by blast
  have "hd (startMarker k) \<notin> set E'" by (simp add: hd nE)
  from ne this b have "sublist (startMarker k) post"
    by (rule sublist_skip_no_head)
  with post show False by simp
qed

lemma occurrences_replaced_block:
  assumes i: "firstIndex doc (startMarker k) = Some i"
    and k: "CHR ''<'' \<notin> set k"
    and p: "\<not> sublist (startMarker k) p"
    and post: "\<not> sublist (startMarker k) post"
  shows "occurrences (startMarker k @ p @ endMarker k)
           (take i doc @ (startMarker k @ p @ endMarker k) @ post) = 1"
proof -
  define w where "w = startMarker k @ p @ endMarker k"
  obtain w' where w': "w = CHR ''<'' # w'"
    by (simp add: w_def startMarker_Cons)
  have skip: "occurrences w (take i doc @ (w @ post)) = occurrences w (w @ post)"
  proof (rule occurrences_skip)
    fix q assume "q < length (take i doc)"
    then have q: "q < i" by simp
    have "\<not> prefix (startMarker k @ (p @ endMarker k))
             (drop q (take i doc) @ startMarker k @ (p @ endMarker k @ post))"
      using i q by (rule no_occurrence_before_first)
    then show "\<not> prefix w (drop q (take i doc) @ w @ post)" by (simp add: w_def)
  qed
  have "\<not> sublist w (tl (w @ post))"
  proof
    assume a: "sublist w (tl (w @ post))"
    have "sublist (startMarker k) w" by (simp add: w_def)
    from this a have "sublist (startMarker k) (tl (w @ post))"
      by (rule sublist_order.order.trans)
    then have "sublist (startMarker k) (tl (startMarker k @ p @ endMarker k @ post))"
      by (simp add: w_def)
    with no_start_after_block_start[OF k p post] show False by simp
  qed
  then have "occurrences w (tl (w @ post)) = 0" by (simp add: occurrences_zero_iff)
  then have "occurrences w (w @ post) = 1" by (simp add: w')
  with skip show ?thesis by (simp add: w_def)
qed

lemma repair_absent: "\<not> hasExistingIndex c k \<Longrightarrow> repairMarkers k c = c"
  by (subst repairMarkers.simps) (simp only: if_False)

lemma repair_no_end:
  assumes "hasExistingIndex c k" "firstIndex c (endMarker k) = None"
  shows "repairMarkers k c = repairMarkers k (replaceFirst c (startMarker k) [])"
proof -
  have "indexOf c (endMarker k) = - 1" using assms(2) by (simp only: indexOf_neg_iff)
  with assms(1) show ?thesis
    by (subst repairMarkers.simps) (simp only: if_True simp_thms)
qed

lemma repair_disorder:
  assumes "firstIndex c (startMarker k) = Some i" "firstIndex c (endMarker k) = Some j"
    and "j + length (endMarker k) \<le> i"
  shows "repairMarkers k c =
     repairMarkers k (replaceFirst (replaceFirst c (startMarker k) []) (endMarker k) [])"
proof -
  have has: "hasExistingIndex c k"
    using assms(1) by (simp add: hasExistingIndex_def includesStr_firstIndex)
  have e: "(indexOf c (endMarker k) = - 1) = False"
    using assms(2) by (simp add: indexOf_def)
  have o: "(indexOf c (endMarker k) + int (length (endMarker k)) \<le> indexOf c (startMarker k))
           = True"
    using assms by (simp add: indexOf_def)
  show ?thesis
    by (subst repairMarkers.simps) (simp only: has e o if_True if_False)
qed

lemma repair_well_formed:
  assumes "firstIndex c (startMarker k) = Some i" "firstIndex c (endMarker k) = Some j"
    and "i < j + length (endMarker k)"
  shows "repairMarkers k c = c"
proof -
  have has: "hasExistingIndex c k"
    using assms(1) by (simp add: hasExistingIndex_def includesStr_firstIndex)
  have e: "(indexOf c (endMarker k) = - 1) = False"
    using assms(2) by (simp add: indexOf_def)
  have o: "(indexOf c (endMarker k) + int (length (endMarker k)) \<le> indexOf c (startMarker k))
           = False"
    using assms by (simp add: indexOf_def)
  show ?thesis
    by (subst repairMarkers.simps) (simp only: has e o if_True if_False)
qed

lemma repair_shape:
  "\<not> hasExistingIndex (repairMarkers k c) k
   \<or> (\<exists>i j. firstIndex (repairMarkers k c) (startMarker k) = Some i
            \<and> firstIndex (repairMarkers k c) (endMarker k) = Some j
            \<and> i < j + length (endMarker k))"
proof (induction c rule: injectIndex_cases[where k = k])
  case (absent c)
  then have "repairMarkers k c = c" by (rule repair_absent)
  with absent show ?case by (simp only: simp_thms)
next
  case (no_end c)
  from no_end(1,2) have "repairMarkers k c = repairMarkers k (replaceFirst c (startMarker k) [])"
    by (rule repair_no_end)
  with no_end(3) show ?case by (simp only:)
next
  case (disorder c i j)
  from disorder(1,2,3) have "repairMarkers k c =
     repairMarkers k (replaceFirst (replaceFirst c (startMarker k) []) (endMarker k) [])"
    by (rule repair_disorder)
  with disorder(4) show ?case by (simp only:)
next
  case (well_formed c i j)
  have "repairMarkers k c = c" using well_formed by (rule repair_well_formed)
  with well_formed show ?case by (simp only:) blast
qed

lemma inject_repair: "injectIndex c p k = injectIndex (repairMarkers k c) p k"
proof (induction c rule: injectIndex_cases[where k = k])
  case (absent c)
  then have "repairMarkers k c = c" by (rule repair_absent)
  then show ?case by (simp only:)
next
  case (no_end c)
  from no_end(1,2) have "repairMarkers k c = repairMarkers k (replaceFirst c (startMarker k) [])"
    by (rule repair_no_end)
  moreover from no_end(1,2)
  have "injectIndex c p k = injectIndex (replaceFirst c (startMarker k) []) p k"
    by (rule inject_no_end)
  ultimately show ?case using no_end(3) by (simp only:)
next
  case (disorder c i j)
  from disorder(1,2,3) have "repairMarkers k c =
     repairMarkers k (replaceFirst (replaceFirst c (startMarker k) []) (endMarker k) [])"
    by (rule repair_disorder)
  moreover from disorder(1,2,3)
  have "injectIndex c p k =
     injectIndex (replaceFirst (replaceFirst c (startMarker k) []) (endMarker k) []) p k"
    by (rule inject_disorder)
  ultimately show ?case using disorder(4) by (simp only:)
next
  case (well_formed c i j)
  have "repairMarkers k c = c" using well_formed by (rule repair_well_formed)
  then show ?case by (simp only:)
qed


lemma slice_first: "firstIndex r s = Some i \<Longrightarrow> slice r 0 (indexOf r s) = take i r"
proof -
  assume i: "firstIndex r s = Some i"
  have "i \<le> length r" using firstIndex_le[OF i] by simp
  then have "slice r 0 (int i) = take i r" by (rule slice_0_nat)
  then show ?thesis using i by (simp add: indexOf_def)
qed

lemma sliceFrom_first:
  "firstIndex r e = Some j \<Longrightarrow>
   sliceFrom r (indexOf r e + int (length e)) = drop (j + length e) r"
  using sliceFrom_nat[of r "j + length e"] by (simp add: indexOf_def)

lemma append_separator:
  "(if r = [] then [] else r @ sep) @ w @ ''\<newline>''
   = (if r = [] then w @ ''\<newline>'' else r @ sep @ w @ ''\<newline>'')"
  by simp

lemma kept_absent:
  assumes "\<not> hasExistingIndex (repairMarkers k c) k"
  shows "textBefore k c @ w @ textAfter k c = appendBlock (repairMarkers k c) w"
  unfolding textBefore_def textAfter_def appendBlock_def Let_def
  by (simp only: assms if_False append_separator)

lemma kept_well_formed:
  assumes "firstIndex (repairMarkers k c) (startMarker k) = Some i"
    and "firstIndex (repairMarkers k c) (endMarker k) = Some j"
  shows "textBefore k c = take i (repairMarkers k c)"
    and "textAfter k c = drop (j + length (endMarker k)) (repairMarkers k c)"
proof -
  have "firstIndex (repairMarkers k c) (startMarker k) \<noteq> None"
    unfolding assms(1) by (rule option.distinct(2))
  then have has: "hasExistingIndex (repairMarkers k c) k"
    unfolding hasExistingIndex_def includesStr_firstIndex .
  show "textBefore k c = take i (repairMarkers k c)"
    unfolding textBefore_def Let_def
    by (simp only: has if_True slice_first[OF assms(1)])
  show "textAfter k c = drop (j + length (endMarker k)) (repairMarkers k c)"
    unfolding textAfter_def Let_def
    by (simp only: has if_True sliceFrom_first[OF assms(2)])
qed

lemma inject_decompose:
  "injectIndex c p k
   = textBefore k c @ (startMarker k @ p @ endMarker k) @ textAfter k c"
proof -
  from repair_shape[of k c] show ?thesis
  proof
    assume a: "\<not> hasExistingIndex (repairMarkers k c) k"
    have "injectIndex c p k = injectIndex (repairMarkers k c) p k" by (rule inject_repair)
    also have "\<dots> = appendBlock (repairMarkers k c) (startMarker k @ p @ endMarker k)"
      using a by (rule inject_absent)
    also have "\<dots> = textBefore k c @ (startMarker k @ p @ endMarker k) @ textAfter k c"
      using kept_absent[OF a] by (simp only:)
    finally show ?thesis .
  next
    assume "\<exists>i j. firstIndex (repairMarkers k c) (startMarker k) = Some i
            \<and> firstIndex (repairMarkers k c) (endMarker k) = Some j
            \<and> i < j + length (endMarker k)"
    then obtain i j where i: "firstIndex (repairMarkers k c) (startMarker k) = Some i"
      and j: "firstIndex (repairMarkers k c) (endMarker k) = Some j"
      and ij: "i < j + length (endMarker k)" by blast
    have "injectIndex c p k = injectIndex (repairMarkers k c) p k" by (rule inject_repair)
    also have "\<dots> = take i (repairMarkers k c) @ startMarker k @ p @ endMarker k
                      @ drop (j + length (endMarker k)) (repairMarkers k c)"
      using i j ij by (rule inject_well_formed)
    finally show ?thesis
      unfolding kept_well_formed[OF i j] by (simp only: append_assoc)
  qed
qed

lemma occurrences_mono: "occurrences w v \<le> occurrences w (u @ v)"
  by (induction u) simp_all

lemma occurrences_same_iff:
  "occurrences w (u @ v) = occurrences w v
   \<longleftrightarrow> (\<forall>q < length u. \<not> prefix w (drop q u @ v))"
proof (induction u)
  case Nil
  show ?case by simp
next
  case (Cons x u)
  have le: "occurrences w v \<le> occurrences w (u @ v)" by (rule occurrences_mono)
  have "occurrences w ((x # u) @ v) = occurrences w v
        \<longleftrightarrow> \<not> prefix w ((x # u) @ v) \<and> occurrences w (u @ v) = occurrences w v"
    using le by auto
  also have "\<dots> \<longleftrightarrow> \<not> prefix w ((x # u) @ v) \<and> (\<forall>q < length u. \<not> prefix w (drop q u @ v))"
    by (simp only: Cons.IH)
  also have "\<dots> \<longleftrightarrow> (\<forall>q < length (x # u). \<not> prefix w (drop q (x # u) @ v))"
  proof
    assume a: "\<not> prefix w ((x # u) @ v) \<and> (\<forall>q < length u. \<not> prefix w (drop q u @ v))"
    show "\<forall>q < length (x # u). \<not> prefix w (drop q (x # u) @ v)"
    proof (intro allI impI)
      fix q assume "q < length (x # u)"
      then show "\<not> prefix w (drop q (x # u) @ v)" using a by (cases q) simp_all
    qed
  next
    assume a: "\<forall>q < length (x # u). \<not> prefix w (drop q (x # u) @ v)"
    have "\<not> prefix w ((x # u) @ v)" using a[rule_format, of 0] by simp
    moreover have "\<forall>q < length u. \<not> prefix w (drop q u @ v)"
    proof (intro allI impI)
      fix q assume "q < length u"
      then show "\<not> prefix w (drop q u @ v)" using a[rule_format, of "Suc q"] by simp
    qed
    ultimately show "\<not> prefix w ((x # u) @ v) \<and> (\<forall>q < length u. \<not> prefix w (drop q u @ v))"
      by (rule conjI)
  qed
  finally show ?case .
qed


lemma occurs_before_iff:
  assumes w: "w \<noteq> []"
  shows "(\<exists>q < length u. prefix w (drop q u @ w @ r)) \<longleftrightarrow> sublist w (u @ butlast w)"
proof
  have split: "w @ r = butlast w @ (last w # r)" using w by simp
  {
    assume "\<exists>q < length u. prefix w (drop q u @ w @ r)"
    then obtain q where q: "q < length u" and p: "prefix w (drop q u @ w @ r)" by blast
    from p have "prefix w ((drop q u @ butlast w) @ (last w # r))"
      by (simp only: split append_assoc)
    moreover have "length w \<le> length (drop q u @ butlast w)" using q w by simp
    ultimately have "prefix w (drop q u @ butlast w)" by (rule prefix_within)
    then have "sublist w (drop q u @ butlast w)" by (rule prefix_imp_sublist)
    moreover have "sublist (drop q u @ butlast w) (take q u @ (drop q u @ butlast w))"
      by (rule sublist_append_leftI)
    ultimately have "sublist w (take q u @ (drop q u @ butlast w))"
      by (rule sublist_order.order.trans)
    moreover have "take q u @ (drop q u @ butlast w) = u @ butlast w"
      by (simp only: append_assoc[symmetric] append_take_drop_id)
    ultimately show "sublist w (u @ butlast w)" by (simp only:)
  }
  {
    assume "sublist w (u @ butlast w)"
    then obtain ps ss where e: "u @ butlast w = ps @ w @ ss" by (auto simp: sublist_def)
    then have "length (u @ butlast w) = length (ps @ w @ ss)" by (simp only:)
    then have l1: "length u + (length w - 1) = length ps + length w + length ss" by simp
    have l2: "1 \<le> length w" using w by (cases w) simp_all
    from l1 l2 have len: "length ps < length u" by arith
    have "drop (length ps) (u @ butlast w) = w @ ss" unfolding e by simp
    then have "drop (length ps) u @ butlast w = w @ ss" using len by simp
    then have "drop (length ps) u @ w @ r = w @ (ss @ (last w # r))"
      by (simp only: split append_assoc[symmetric]) 
    then have "prefix w (drop (length ps) u @ w @ r)" by (simp only: prefixI)
    with len show "\<exists>q < length u. prefix w (drop q u @ w @ r)" by blast
  }
qed

lemma occurrences_unique_iff:
  assumes w: "w \<noteq> []"
  shows "occurrences w (u @ w @ r) = 1
         \<longleftrightarrow> \<not> sublist w (u @ butlast w) \<and> \<not> sublist w (tl (w @ r))"
proof -
  obtain x w' where xw: "w = x # w'" using w by (cases w) auto
  have here: "occurrences w (w @ r) = 1 + occurrences w (tl (w @ r))"
    by (simp add: xw)
  have le: "occurrences w (w @ r) \<le> occurrences w (u @ w @ r)" by (rule occurrences_mono)
  have "occurrences w (u @ w @ r) = 1
        \<longleftrightarrow> occurrences w (u @ w @ r) = occurrences w (w @ r)
            \<and> occurrences w (tl (w @ r)) = 0"
    using here le by linarith
  also have "\<dots> \<longleftrightarrow> (\<forall>q < length u. \<not> prefix w (drop q u @ w @ r))
                  \<and> \<not> sublist w (tl (w @ r))"
    by (simp only: occurrences_same_iff occurrences_zero_iff)
  also have "\<dots> \<longleftrightarrow> \<not> sublist w (u @ butlast w) \<and> \<not> sublist w (tl (w @ r))"
    using occurs_before_iff[OF w, of u r] by blast
  finally show ?thesis .
qed


lemma wrapped_nonempty: "startMarker k @ p @ endMarker k \<noteq> []"
  by (simp add: startMarker_nonempty)

text \<open>
  Claim C2, amended. For every document, payload and key: the result of injection
  contains start marker, payload, end marker as one contiguous text; the result is
  \<open>textBefore\<close>, then that text, then \<open>textAfter\<close>; and that text occurs exactly once
  in the result if and only if it occurs neither in \<open>textBefore\<close> followed by all but
  its own last character, nor in itself followed by \<open>textAfter\<close> with its own first
  character dropped. It occurs exactly once when the repaired document has no start
  marker of the key and the key has no newline character, and when the repaired
  document has a start marker of the key, neither the payload nor \<open>textAfter\<close>
  contains a start marker of the key, and the key has no \<open><\<close> character. A document
  without a start marker of the key is its own repair. A document whose first start
  marker stands at \<open>i\<close> and whose first end marker stands at \<open>j\<close> and ends after \<open>i\<close> is its
  own repair, \<open>textBefore\<close> is its first \<open>i\<close> characters, and \<open>textAfter\<close> is what follows
  that end marker.
\<close>

theorem inject_contains_block:
  "includesStr (injectIndex doc p k) (startMarker k @ p @ endMarker k)
   \<and> injectIndex doc p k
       = textBefore k doc @ (startMarker k @ p @ endMarker k) @ textAfter k doc
   \<and> ((occurrences (startMarker k @ p @ endMarker k) (injectIndex doc p k) = 1)
        = (\<not> includesStr (textBefore k doc @ butlast (startMarker k @ p @ endMarker k))
               (startMarker k @ p @ endMarker k)
           \<and> \<not> includesStr (tl ((startMarker k @ p @ endMarker k) @ textAfter k doc))
               (startMarker k @ p @ endMarker k)))
   \<and> (\<not> hasExistingIndex (repairMarkers k doc) k \<and> CHR ''\<newline>'' \<notin> set k \<longrightarrow>
        occurrences (startMarker k @ p @ endMarker k) (injectIndex doc p k) = 1)
   \<and> (hasExistingIndex (repairMarkers k doc) k
        \<and> \<not> includesStr p (startMarker k)
        \<and> \<not> includesStr (textAfter k doc) (startMarker k)
        \<and> CHR ''<'' \<notin> set k \<longrightarrow>
        occurrences (startMarker k @ p @ endMarker k) (injectIndex doc p k) = 1)
   \<and> (\<not> hasExistingIndex doc k \<longrightarrow> repairMarkers k doc = doc)
   \<and> (firstIndex doc (startMarker k) = Some i \<and> firstIndex doc (endMarker k) = Some j
        \<and> i < j + length (endMarker k) \<longrightarrow>
        repairMarkers k doc = doc \<and> textBefore k doc = take i doc
        \<and> textAfter k doc = drop (j + length (endMarker k)) doc)"
proof (intro conjI impI)
  show "includesStr (injectIndex doc p k) (startMarker k @ p @ endMarker k)"
    unfolding includesStr_def by (rule inject_contains_wrapped)
  show "injectIndex doc p k
       = textBefore k doc @ (startMarker k @ p @ endMarker k) @ textAfter k doc"
    by (rule inject_decompose)
  have iff: "(occurrences (startMarker k @ p @ endMarker k)
           (textBefore k doc @ (startMarker k @ p @ endMarker k) @ textAfter k doc) = 1)
        = (\<not> sublist (startMarker k @ p @ endMarker k)
               (textBefore k doc @ butlast (startMarker k @ p @ endMarker k))
           \<and> \<not> sublist (startMarker k @ p @ endMarker k)
               (tl ((startMarker k @ p @ endMarker k) @ textAfter k doc)))"
    by (rule occurrences_unique_iff[OF wrapped_nonempty])
  show "(occurrences (startMarker k @ p @ endMarker k) (injectIndex doc p k) = 1)
        = (\<not> includesStr (textBefore k doc @ butlast (startMarker k @ p @ endMarker k))
               (startMarker k @ p @ endMarker k)
           \<and> \<not> includesStr (tl ((startMarker k @ p @ endMarker k) @ textAfter k doc))
               (startMarker k @ p @ endMarker k))"
    unfolding includesStr_def by (subst inject_decompose) (rule iff)
next
  assume h: "\<not> hasExistingIndex (repairMarkers k doc) k \<and> CHR ''\<newline>'' \<notin> set k"
  then have a: "\<not> hasExistingIndex (repairMarkers k doc) k" by (rule conjunct1)
  then have "\<not> sublist (startMarker k) (repairMarkers k doc)"
    unfolding hasExistingIndex_def includesStr_def .
  moreover from h have "CHR ''\<newline>'' \<notin> set (startMarker k)"
    by (simp add: startMarker_def)
  ultimately have "occurrences (startMarker k @ p @ endMarker k)
      (appendBlock (repairMarkers k doc) (startMarker k @ p @ endMarker k)) = 1"
    by (rule occurrences_appendBlock)
  moreover have "injectIndex doc p k
      = appendBlock (repairMarkers k doc) (startMarker k @ p @ endMarker k)"
    using inject_repair[of doc p k] inject_absent[OF a, of p] by (simp only:)
  ultimately show "occurrences (startMarker k @ p @ endMarker k) (injectIndex doc p k) = 1"
    by (simp only:)
next
  assume h: "hasExistingIndex (repairMarkers k doc) k
        \<and> \<not> includesStr p (startMarker k)
        \<and> \<not> includesStr (textAfter k doc) (startMarker k)
        \<and> CHR ''<'' \<notin> set k"
  then have has: "hasExistingIndex (repairMarkers k doc) k"
    and p: "\<not> sublist (startMarker k) p"
    and post: "\<not> sublist (startMarker k) (textAfter k doc)"
    and k: "CHR ''<'' \<notin> set k"
    unfolding includesStr_def by blast+
  from repair_shape[of k doc] has
  obtain i j where i: "firstIndex (repairMarkers k doc) (startMarker k) = Some i"
    and j: "firstIndex (repairMarkers k doc) (endMarker k) = Some j" by blast
  have "occurrences (startMarker k @ p @ endMarker k)
          (take i (repairMarkers k doc) @ (startMarker k @ p @ endMarker k) @ textAfter k doc)
        = 1"
    using i k p post by (rule occurrences_replaced_block)
  then show "occurrences (startMarker k @ p @ endMarker k) (injectIndex doc p k) = 1"
    unfolding inject_decompose[of doc p k] kept_well_formed(1)[OF i j] .
next
  assume "\<not> hasExistingIndex doc k"
  then show "repairMarkers k doc = doc" by (rule repair_absent)
next
  assume h: "firstIndex doc (startMarker k) = Some i \<and> firstIndex doc (endMarker k) = Some j
        \<and> i < j + length (endMarker k)"
  then have i: "firstIndex doc (startMarker k) = Some i"
    and j: "firstIndex doc (endMarker k) = Some j"
    and ij: "i < j + length (endMarker k)" by blast+
  show r: "repairMarkers k doc = doc" using i j ij by (rule repair_well_formed)
  from i j have i': "firstIndex (repairMarkers k doc) (startMarker k) = Some i"
    and j': "firstIndex (repairMarkers k doc) (endMarker k) = Some j"
    by (simp_all only: r)
  show "textBefore k doc = take i doc"
    using kept_well_formed(1)[OF i' j'] by (simp only: r)
  show "textAfter k doc = drop (j + length (endMarker k)) doc"
    using kept_well_formed(2)[OF i' j'] by (simp only: r)
qed

text \<open>
  Witness for C2: a fresh append to the document \<open># Project\<close>; the document of the
  repository's test of a corrupted marker order (end marker before start marker), whose
  repair leaves no start marker; and the in-place replacement of the block between a
  header and a footer.
\<close>

theorem inject_contains_block_witness:
  "\<not> hasExistingIndex ''# Project\<newline>'' ''lib''
   \<and> repairMarkers ''lib'' ''# Project\<newline>'' = ''# Project\<newline>''
   \<and> \<not> hasExistingIndex (repairMarkers ''lib'' ''# Project\<newline>'') ''lib''
   \<and> CHR ''\<newline>'' \<notin> set ''lib''
   \<and> occurrences (startMarker ''lib'' @ ''index v1'' @ endMarker ''lib'')
         (injectIndex ''# Project\<newline>'' ''index v1'' ''lib'') = 1
   \<and> \<not> hasExistingIndex
         (repairMarkers ''lib''
            (''# Header\<newline>'' @ endMarker ''lib'' @ ''old'' @ startMarker ''lib''
               @ ''\<newline>Footer''))
         ''lib''
   \<and> occurrences (startMarker ''lib'' @ ''new content'' @ endMarker ''lib'')
         (injectIndex
            (''# Header\<newline>'' @ endMarker ''lib'' @ ''old'' @ startMarker ''lib''
               @ ''\<newline>Footer'')
            ''new content'' ''lib'') = 1
   \<and> firstIndex (''# Header\<newline>\<newline>'' @ startMarker ''react'' @ ''old content''
         @ endMarker ''react'' @ ''\<newline>\<newline>Footer'') (startMarker ''react'') = Some 10
   \<and> firstIndex (''# Header\<newline>\<newline>'' @ startMarker ''react'' @ ''old content''
         @ endMarker ''react'' @ ''\<newline>\<newline>Footer'') (endMarker ''react'') = Some 56
   \<and> (10::nat) < 56 + length (endMarker ''react'')
   \<and> textAfter ''react''
         (''# Header\<newline>\<newline>'' @ startMarker ''react'' @ ''old content''
            @ endMarker ''react'' @ ''\<newline>\<newline>Footer'')
       = drop (56 + length (endMarker ''react''))
           (''# Header\<newline>\<newline>'' @ startMarker ''react'' @ ''old content''
              @ endMarker ''react'' @ ''\<newline>\<newline>Footer'')
   \<and> hasExistingIndex
         (repairMarkers ''react''
            (''# Header\<newline>\<newline>'' @ startMarker ''react'' @ ''old content''
               @ endMarker ''react'' @ ''\<newline>\<newline>Footer''))
         ''react''
   \<and> \<not> includesStr ''new content'' (startMarker ''react'')
   \<and> \<not> includesStr
         (textAfter ''react''
            (''# Header\<newline>\<newline>'' @ startMarker ''react'' @ ''old content''
               @ endMarker ''react'' @ ''\<newline>\<newline>Footer''))
         (startMarker ''react'')
   \<and> CHR ''<'' \<notin> set ''react''
   \<and> occurrences (startMarker ''react'' @ ''new content'' @ endMarker ''react'')
         (injectIndex
            (''# Header\<newline>\<newline>'' @ startMarker ''react'' @ ''old content''
               @ endMarker ''react'' @ ''\<newline>\<newline>Footer'')
            ''new content'' ''react'') = 1"
proof -
  let ?d1 = "''# Project\<newline>''"
  let ?d3 = "''# Header\<newline>'' @ endMarker ''lib'' @ ''old'' @ startMarker ''lib''
               @ ''\<newline>Footer''"
  let ?d2 = "''# Header\<newline>\<newline>'' @ startMarker ''react'' @ ''old content''
               @ endMarker ''react'' @ ''\<newline>\<newline>Footer''"
  note t1 = inject_contains_block[where doc="?d1" and p="''index v1''" and k="''lib''"
      and i=0 and j=0]
  note t3 = inject_contains_block[where doc="?d3" and p="''new content''" and k="''lib''"
      and i=0 and j=0]
  note t2 = inject_contains_block[where doc="?d2" and p="''new content''" and k="''react''"
      and i=10 and j=56]
  note t1D = conjunct1[OF conjunct2[OF conjunct2[OF conjunct2[OF t1]]]]
  note t1F = conjunct1[OF conjunct2[OF conjunct2[OF conjunct2[OF conjunct2[OF conjunct2[OF t1]]]]]]
  note t3D = conjunct1[OF conjunct2[OF conjunct2[OF conjunct2[OF t3]]]]
  note t2E = conjunct1[OF conjunct2[OF conjunct2[OF conjunct2[OF conjunct2[OF t2]]]]]
  note t2G = conjunct2[OF conjunct2[OF conjunct2[OF conjunct2[OF conjunct2[OF conjunct2[OF t2]]]]]]
  have a1: "\<not> hasExistingIndex ?d1 ''lib''" by code_simp
  have a2: "\<not> hasExistingIndex (repairMarkers ''lib'' ?d1) ''lib''" by code_simp
  have a3: "CHR ''\<newline>'' \<notin> set ''lib''" by simp
  have c1: "\<not> hasExistingIndex (repairMarkers ''lib'' ?d3) ''lib''" by code_simp
  have b1: "firstIndex ?d2 (startMarker ''react'') = Some 10" by code_simp
  have b2: "firstIndex ?d2 (endMarker ''react'') = Some 56" by code_simp
  have b3: "(10::nat) < 56 + length (endMarker ''react'')" by code_simp
  have b4: "hasExistingIndex (repairMarkers ''react'' ?d2) ''react''" by code_simp
  have b5: "\<not> includesStr ''new content'' (startMarker ''react'')" by code_simp
  have b6: "\<not> includesStr (textAfter ''react'' ?d2) (startMarker ''react'')" by code_simp
  have b7: "CHR ''<'' \<notin> set ''react''" by simp
  have r1: "repairMarkers ''lib'' ?d1 = ?d1" by (rule mp[OF t1F a1])
  have r2: "occurrences (startMarker ''lib'' @ ''index v1'' @ endMarker ''lib'')
         (injectIndex ?d1 ''index v1'' ''lib'') = 1"
    by (rule mp[OF t1D conjI[OF a2 a3]])
  have r3: "occurrences (startMarker ''lib'' @ ''new content'' @ endMarker ''lib'')
         (injectIndex ?d3 ''new content'' ''lib'') = 1"
    by (rule mp[OF t3D conjI[OF c1 a3]])
  have r4: "textAfter ''react'' ?d2 = drop (56 + length (endMarker ''react'')) ?d2"
    by (rule conjunct2[OF conjunct2[OF mp[OF t2G conjI[OF b1 conjI[OF b2 b3]]]]])
  have r5: "occurrences (startMarker ''react'' @ ''new content'' @ endMarker ''react'')
         (injectIndex ?d2 ''new content'' ''react'') = 1"
    by (rule mp[OF t2E conjI[OF b4 conjI[OF b5 conjI[OF b6 b7]]]])
  show ?thesis by (intro conjI) (fact a1 r1 a2 a3 r2 c1 r3 b1 b2 b3 r4 b4 b5 b6 b7 r5)+
qed

text \<open>
  Claim C5 (repair of an orphaned start marker), counterexample: literal removal of a
  marker joins the text on both sides of it, and the joined text can itself spell a
  marker. The document below holds start markers for \<open>lib\<close> and no end marker; the
  repair steps assemble a start and an end marker out of the fragments, the recursion
  ends in the in-place replacement branch instead of the append branch, and a bare
  start marker is left after the block.
\<close>

theorem inject_orphan_start_counterexample:
  "includesStr
     (''<!-- DOCS-<!-- DOCS-'' @ startMarker ''lib'' @ ''AGENTS-MD:lib-END -->AGENTS-MD:lib-START --><!-- DOCS-''
        @ startMarker ''lib'' @ ''AGENTS-MD:lib-END -->'' @ startMarker ''lib'')
     (startMarker ''lib'')
   \<and> \<not> includesStr
     (''<!-- DOCS-<!-- DOCS-'' @ startMarker ''lib'' @ ''AGENTS-MD:lib-END -->AGENTS-MD:lib-START --><!-- DOCS-''
        @ startMarker ''lib'' @ ''AGENTS-MD:lib-END -->'' @ startMarker ''lib'')
     (endMarker ''lib'')
   \<and> injectIndex
     (''<!-- DOCS-<!-- DOCS-'' @ startMarker ''lib'' @ ''AGENTS-MD:lib-END -->AGENTS-MD:lib-START --><!-- DOCS-''
        @ startMarker ''lib'' @ ''AGENTS-MD:lib-END -->'' @ startMarker ''lib'')
     ''X'' ''lib''
     = startMarker ''lib'' @ ''X'' @ endMarker ''lib'' @ startMarker ''lib''"
  by code_simp

lemma inject_strip:
  "endMarkerNeverArises k doc \<Longrightarrow>
   injectIndex doc p k = appendBlock (stripStartMarkers k doc) (startMarker k @ p @ endMarker k)
   \<and> \<not> includesStr (stripStartMarkers k doc) (startMarker k)"
proof (induction k doc rule: stripStartMarkers.induct)
  case (1 k doc)
  note never = endMarkerNeverArises.simps[of k doc]
  note strip = stripStartMarkers.simps[of k doc]
  have noend: "\<not> includesStr doc (endMarker k)"
  proof
    assume "includesStr doc (endMarker k)"
    with never have "\<not> endMarkerNeverArises k doc" by (simp only: if_True simp_thms)
    with "1.prems" show False by (simp only: simp_thms)
  qed
  show ?case
  proof (cases "hasExistingIndex doc k")
    case True
    from never noend True
    have "endMarkerNeverArises k doc
          = endMarkerNeverArises k (replaceFirst doc (startMarker k) [])"
      by (simp only: if_True if_False)
    with "1.prems" have "endMarkerNeverArises k (replaceFirst doc (startMarker k) [])"
      by (simp only:)
    from "1.IH"[OF True this]
    have ih: "injectIndex (replaceFirst doc (startMarker k) []) p k
              = appendBlock (stripStartMarkers k (replaceFirst doc (startMarker k) []))
                  (startMarker k @ p @ endMarker k)"
      and clean: "\<not> includesStr (stripStartMarkers k (replaceFirst doc (startMarker k) []))
                      (startMarker k)"
      by (rule conjunct1, rule conjunct2)
    from strip True
    have s: "stripStartMarkers k doc = stripStartMarkers k (replaceFirst doc (startMarker k) [])"
      by (simp only: if_True)
    have "firstIndex doc (endMarker k) = None"
      using noend by (simp only: includesStr_firstIndex simp_thms)
    with True have "injectIndex doc p k = injectIndex (replaceFirst doc (startMarker k) []) p k"
      by (rule inject_no_end)
    then have "injectIndex doc p k
              = appendBlock (stripStartMarkers k (replaceFirst doc (startMarker k) []))
                  (startMarker k @ p @ endMarker k)"
      by (simp only: ih)
    with clean show ?thesis unfolding s by (rule conjI[rotated])
  next
    case False
    from strip False have s: "stripStartMarkers k doc = doc"
      by (simp only: if_False)
    from False have "\<not> includesStr doc (startMarker k)"
      unfolding hasExistingIndex_def .
    with inject_absent[OF False, of p] show ?thesis
      unfolding s by (rule conjI)
  qed
qed

text \<open>
  Claim C5, amended: for a document that contains the start marker of the key, and in
  which no end marker of the key is present or comes into being while the start markers
  are stripped, injection strips every start marker by literal text removal (the first
  occurrence, repeatedly) and appends a fresh block to the stripped text; the stripped
  text contains no start marker, and (for a key without newline) the block start
  marker, payload, end marker occurs exactly once in the result.
\<close>

theorem inject_orphan_start:
  "includesStr doc (startMarker k) \<and> endMarkerNeverArises k doc \<longrightarrow>
     injectIndex doc p k
       = appendBlock (stripStartMarkers k doc) (startMarker k @ p @ endMarker k)
     \<and> \<not> includesStr (stripStartMarkers k doc) (startMarker k)
     \<and> (CHR ''\<newline>'' \<notin> set k \<longrightarrow>
          occurrences (startMarker k @ p @ endMarker k) (injectIndex doc p k) = 1)"
proof (intro impI conjI)
  assume h: "includesStr doc (startMarker k) \<and> endMarkerNeverArises k doc"
  then have e: "endMarkerNeverArises k doc" by (rule conjunct2)
  from inject_strip[OF e]
  show app: "injectIndex doc p k
       = appendBlock (stripStartMarkers k doc) (startMarker k @ p @ endMarker k)"
    and clean: "\<not> includesStr (stripStartMarkers k doc) (startMarker k)"
    by (rule conjunct1, rule conjunct2)
  assume nl: "CHR ''\<newline>'' \<notin> set k"
  from clean have "\<not> sublist (startMarker k) (stripStartMarkers k doc)"
    unfolding includesStr_def .
  moreover from nl have "CHR ''\<newline>'' \<notin> set (startMarker k)"
    by (simp add: startMarker_def)
  ultimately have "occurrences (startMarker k @ p @ endMarker k)
      (appendBlock (stripStartMarkers k doc) (startMarker k @ p @ endMarker k)) = 1"
    by (rule occurrences_appendBlock)
  then show "occurrences (startMarker k @ p @ endMarker k) (injectIndex doc p k) = 1"
    by (simp only: app)
qed

text \<open>Witness for C5: the document of the repository's own recovery test.\<close>

theorem inject_orphan_start_witness:
  "includesStr (''Some text\<newline>'' @ startMarker ''lib'' @ ''old content\<newline>More text'') (startMarker ''lib'')
   \<and> endMarkerNeverArises ''lib''
        (''Some text\<newline>'' @ startMarker ''lib'' @ ''old content\<newline>More text'')
   \<and> CHR ''\<newline>'' \<notin> set ''lib''
   \<and> injectIndex (''Some text\<newline>'' @ startMarker ''lib'' @ ''old content\<newline>More text'') ''X'' ''lib''
       = ''Some text\<newline>old content\<newline>More text\<newline>\<newline>''
         @ startMarker ''lib'' @ ''X'' @ endMarker ''lib'' @ ''\<newline>''
   \<and> occurrences (startMarker ''lib'' @ ''X'' @ endMarker ''lib'')
        (injectIndex (''Some text\<newline>'' @ startMarker ''lib'' @ ''old content\<newline>More text'') ''X'' ''lib'')
       = 1"
proof -
  let ?doc = "''Some text\<newline>'' @ startMarker ''lib'' @ ''old content\<newline>More text''"
  have h1: "includesStr ?doc (startMarker ''lib'')" by code_simp
  have h2: "endMarkerNeverArises ''lib'' ?doc" by code_simp
  have h3: "CHR ''\<newline>'' \<notin> set ''lib''" by simp
  have v: "appendBlock (stripStartMarkers ''lib'' ?doc)
             (startMarker ''lib'' @ ''X'' @ endMarker ''lib'')
           = ''Some text\<newline>old content\<newline>More text\<newline>\<newline>''
             @ startMarker ''lib'' @ ''X'' @ endMarker ''lib'' @ ''\<newline>''"
    by code_simp
  note t = mp[OF inject_orphan_start[where doc="?doc" and k="''lib''" and p="''X''"] conjI[OF h1 h2]]
  have r1: "injectIndex ?doc ''X'' ''lib''
       = ''Some text\<newline>old content\<newline>More text\<newline>\<newline>''
         @ startMarker ''lib'' @ ''X'' @ endMarker ''lib'' @ ''\<newline>''"
    using conjunct1[OF t] by (simp only: v)
  have r2: "occurrences (startMarker ''lib'' @ ''X'' @ endMarker ''lib'')
        (injectIndex ?doc ''X'' ''lib'') = 1"
    by (rule mp[OF conjunct2[OF conjunct2[OF t]] h3])
  show ?thesis by (intro conjI) (fact h1 h2 h3 r1 r2)+
qed

lemma endsWith_two_take:
  assumes "i \<le> length s"
  shows "endsWith (take i s) [a, b] \<longleftrightarrow> 2 \<le> i \<and> s ! (i - 2) = a \<and> s ! (i - 1) = b"
proof
  assume "endsWith (take i s) [a, b]"
  then obtain zs where zs: "take i s = zs @ [a, b]" by (auto simp: endsWith_def suffix_def)
  then have "length (take i s) = length zs + 2" by simp
  with assms have len: "i = length zs + 2" by simp
  have "s ! (i - 2) = take i s ! (i - 2)" using len by simp
  also have "\<dots> = a" unfolding zs using len by (simp add: nth_append)
  finally have a: "s ! (i - 2) = a" .
  have "s ! (i - 1) = take i s ! (i - 1)" using len by simp
  also have "\<dots> = b" unfolding zs using len by (simp add: nth_append)
  finally have b: "s ! (i - 1) = b" .
  from len a b show "2 \<le> i \<and> s ! (i - 2) = a \<and> s ! (i - 1) = b" by simp
next
  assume h: "2 \<le> i \<and> s ! (i - 2) = a \<and> s ! (i - 1) = b"
  then obtain n where n: "i = Suc (Suc n)" by (metis add_2_eq_Suc le_Suc_ex)
  from assms n have "take i s = take n s @ [s ! n, s ! Suc n]"
    by (simp add: take_Suc_conv_app_nth)
  with h n show "endsWith (take i s) [a, b]" by (simp add: endsWith_def suffix_def)
qed

lemma prefix_one_drop:
  "prefix [a] (drop e s) \<longleftrightarrow> e < length s \<and> s ! e = a"
proof (cases "e < length s")
  case True
  then have "drop e s = s ! e # drop (Suc e) s" by (simp add: Cons_nth_drop_Suc)
  with True show ?thesis by auto
next
  case False
  then show ?thesis by simp
qed

lemma removeIndex_absent:
  "\<not> includesStr doc (startMarker k) \<Longrightarrow> removeIndex doc k = doc"
  by (simp add: removeIndex_def hasExistingIndex_def)

lemma charAt_nat: "charAt s (int n) = Some c \<longleftrightarrow> n < length s \<and> s ! n = c"
  by (simp add: charAt_def)

lemma removeStart_cond:
  assumes "i \<le> length doc"
  shows "(2 \<le> int i \<and> charAt doc (int i - 1) = Some a \<and> charAt doc (int i - 2) = Some b)
         \<longleftrightarrow> endsWith (take i doc) [b, a]"
proof (cases "2 \<le> i")
  case True
  have e1: "int i - 1 = int (i - 1)" and e2: "int i - 2 = int (i - 2)" using True by simp_all
  have l1: "i - 1 < length doc" and l2: "i - 2 < length doc" using True assms by simp_all
  have t: "2 \<le> int i" using True by simp
  show ?thesis
    unfolding e1 e2 charAt_nat endsWith_two_take[OF assms]
    using True t l1 l2 by blast
next
  case False
  then have "\<not> 2 \<le> int i" by simp
  moreover have "\<not> endsWith (take i doc) [b, a]"
    using False endsWith_two_take[OF assms] by blast
  ultimately show ?thesis by blast
qed

lemma removeEnd_cond:
  "(int e < int (length doc) \<and> charAt doc (int e) = Some a) \<longleftrightarrow> prefix [a] (drop e doc)"
  unfolding charAt_nat prefix_one_drop by auto

lemma slice_dropBlankLineBefore:
  assumes "i \<le> length doc"
  shows "slice doc 0 (if endsWith (take i doc) ''\<newline>\<newline>'' then int i - 2 else int i)
         = dropBlankLineBefore (take i doc)"
proof (cases "endsWith (take i doc) ''\<newline>\<newline>''")
  case True
  then have "2 \<le> i" using endsWith_two_take[OF assms] by blast
  then have e: "int i - 2 = int (i - 2)" by simp
  have "i - 2 \<le> length doc" using assms by simp
  then have a: "slice doc 0 (int i - 2) = take (i - 2) doc"
    unfolding e by (rule slice_0_nat)
  have l: "length (take i doc) = i" using assms by simp
  have b: "dropBlankLineBefore (take i doc) = take (i - 2) doc"
    unfolding dropBlankLineBefore_def l by (simp only: True if_True take_take) simp
  show ?thesis by (simp only: True if_True a b)
next
  case False
  have b: "dropBlankLineBefore (take i doc) = take i doc"
    unfolding dropBlankLineBefore_def by (simp only: False if_False)
  show ?thesis by (simp only: False if_False b slice_0_nat[OF assms])
qed

lemma sliceFrom_dropNewlineAfter:
  "sliceFrom doc (if prefix ''\<newline>'' (drop e doc) then int e + 1 else int e)
   = dropNewlineAfter (drop e doc)"
proof (cases "prefix ''\<newline>'' (drop e doc)")
  case True
  have "sliceFrom doc (int (Suc e)) = drop (Suc e) doc" by (rule sliceFrom_nat)
  moreover have "int (Suc e) = int e + 1" by simp
  ultimately have a: "sliceFrom doc (int e + 1) = drop (Suc e) doc" by (simp only:)
  have "drop 1 (drop e doc) = drop (Suc e) doc" by simp
  then have b: "dropNewlineAfter (drop e doc) = drop (Suc e) doc"
    unfolding dropNewlineAfter_def by (simp only: True if_True)
  show ?thesis by (simp only: True if_True a b)
next
  case False
  have b: "dropNewlineAfter (drop e doc) = drop e doc"
    unfolding dropNewlineAfter_def by (simp only: False if_False)
  show ?thesis by (simp only: False if_False b sliceFrom_nat)
qed

lemma removeIndex_well_formed:
  assumes i: "firstIndex doc (startMarker k) = Some i"
    and j: "firstIndex doc (endMarker k) = Some j"
    and ij: "i < j + length (endMarker k)"
  shows "removeIndex doc k =
           dropBlankLineBefore (take i doc)
           @ dropNewlineAfter (drop (j + length (endMarker k)) doc)"
proof -
  define e where "e = j + length (endMarker k)"
  have i_le: "i \<le> length doc" using firstIndex_le[OF i] by simp
  have has: "hasExistingIndex doc k"
    using i by (simp add: hasExistingIndex_def includesStr_firstIndex)
  have si: "indexOf doc (startMarker k) = int i" using i by (rule indexOf_Some)
  have sj: "indexOf doc (endMarker k) = int j" using j by (rule indexOf_Some)
  have ee: "int j + int (length (endMarker k)) = int e" by (simp add: e_def)
  have ord: "(int e \<le> int i) = False" using ij by (simp add: e_def)
  have nj: "(int j = - 1) = False" by simp
  have shape: "removeIndex doc k =
      slice doc 0 (if endsWith (take i doc) ''\<newline>\<newline>'' then int i - 2 else int i)
      @ sliceFrom doc (if prefix ''\<newline>'' (drop e doc) then int e + 1 else int e)"
    unfolding removeIndex_def Let_def si sj ee
    by (simp only: removeStart_cond[OF i_le] removeEnd_cond has ord nj
          if_True if_False not_True_eq_False)
  show ?thesis
    unfolding shape slice_dropBlankLineBefore[OF i_le] sliceFrom_dropNewlineAfter e_def ..
qed

text \<open>
  Claim C8. \<open>removeIndex\<close> returns the document unchanged when it holds no start
  marker for the key. When the first start marker is at \<open>i\<close> and the first end marker at
  \<open>j\<close>, strictly after it, the text from \<open>i\<close> through the end of the end marker is
  deleted; of the text before it the last two characters are deleted too when both are
  newlines, and of the text after it at most one leading newline.
\<close>

theorem removeIndex_spec:
  "(\<not> includesStr doc (startMarker k) \<longrightarrow> removeIndex doc k = doc)
   \<and> (firstIndex doc (startMarker k) = Some i \<and> firstIndex doc (endMarker k) = Some j \<and> i < j
        \<longrightarrow> removeIndex doc k =
              dropBlankLineBefore (take i doc)
              @ dropNewlineAfter (drop (j + length (endMarker k)) doc))"
proof (intro conjI impI)
  assume "\<not> includesStr doc (startMarker k)"
  then show "removeIndex doc k = doc" by (rule removeIndex_absent)
next
  assume h: "firstIndex doc (startMarker k) = Some i \<and> firstIndex doc (endMarker k) = Some j \<and> i < j"
  then have a: "firstIndex doc (startMarker k) = Some i"
    and b: "firstIndex doc (endMarker k) = Some j"
    and c: "i < j + length (endMarker k)" by simp_all
  show "removeIndex doc k =
      dropBlankLineBefore (take i doc) @ dropNewlineAfter (drop (j + length (endMarker k)) doc)"
    by (rule removeIndex_well_formed[OF a b c])
qed

text \<open>
  Witness for C8: a document without markers, and the block between a header and a
  footer of the repository's removal test.
\<close>

theorem removeIndex_spec_witness:
  "\<not> includesStr ''# No markers here'' (startMarker ''react'')
   \<and> removeIndex ''# No markers here'' ''react'' = ''# No markers here''
   \<and> firstIndex (''# Header\<newline>\<newline>'' @ startMarker ''react'' @ ''stuff'' @ endMarker ''react''
         @ ''\<newline>\<newline>Footer'') (startMarker ''react'') = Some 10
   \<and> firstIndex (''# Header\<newline>\<newline>'' @ startMarker ''react'' @ ''stuff'' @ endMarker ''react''
         @ ''\<newline>\<newline>Footer'') (endMarker ''react'') = Some 50
   \<and> (10::nat) < 50
   \<and> removeIndex (''# Header\<newline>\<newline>'' @ startMarker ''react'' @ ''stuff'' @ endMarker ''react''
         @ ''\<newline>\<newline>Footer'') ''react'' = ''# Header\<newline>Footer''"
proof -
  let ?doc = "''# Header\<newline>\<newline>'' @ startMarker ''react'' @ ''stuff'' @ endMarker ''react''
         @ ''\<newline>\<newline>Footer''"
  have h1: "\<not> includesStr ''# No markers here'' (startMarker ''react'')" by code_simp
  have h2: "firstIndex ?doc (startMarker ''react'') = Some 10" by code_simp
  have h3: "firstIndex ?doc (endMarker ''react'') = Some 50" by code_simp
  have h4: "(10::nat) < 50" by simp
  have v: "dropBlankLineBefore (take 10 ?doc)
           @ dropNewlineAfter (drop (50 + length (endMarker ''react'')) ?doc)
           = ''# Header\<newline>Footer''"
    by code_simp
  have r1: "removeIndex ''# No markers here'' ''react'' = ''# No markers here''"
    by (rule mp[OF conjunct1[OF removeIndex_spec[of "''# No markers here''" "''react''"]] h1])
  have "removeIndex ?doc ''react'' = dropBlankLineBefore (take 10 ?doc)
           @ dropNewlineAfter (drop (50 + length (endMarker ''react'')) ?doc)"
    by (rule mp[OF conjunct2[OF removeIndex_spec[of ?doc "''react''" 10 50]]
                 conjI[OF h2 conjI[OF h3 h4]]])
  then have r2: "removeIndex ?doc ''react'' = ''# Header\<newline>Footer''"
    by (simp only: v)
  show ?thesis by (intro conjI) (fact h1 r1 h2 h3 h4 r2)+
qed

lemma sublist_appendBlock_doc: "sublist b doc \<Longrightarrow> sublist b (appendBlock doc w)"
proof (cases "doc = []")
  case True
  assume "sublist b doc"
  with True have "b = []" by simp
  then show ?thesis by simp
next
  case False
  assume b: "sublist b doc"
  have "prefix doc (appendBlock doc w)"
    using False unfolding appendBlock_def by (simp only: if_False prefixI)
  then have "sublist doc (appendBlock doc w)" by (rule prefix_imp_sublist)
  with b show ?thesis by (rule sublist_order.order.trans)
qed

lemma sublist_whole:
  assumes "sublist b m" "b \<noteq> []" "hd b \<notin> set (tl m)" "last b \<notin> set (butlast m)"
  shows "b = m"
proof -
  from assms(1) obtain x y where m: "m = x @ b @ y" by (auto simp: sublist_def)
  have x: "x = []"
  proof (rule ccontr)
    assume "x \<noteq> []"
    then have "set b \<subseteq> set (tl m)" unfolding m by (cases x) auto
    moreover have "hd b \<in> set b" using assms(2) by simp
    ultimately show False using assms(3) by blast
  qed
  have y: "y = []"
  proof (rule ccontr)
    assume "y \<noteq> []"
    then have "butlast m = x @ b @ butlast y" unfolding m by (simp add: butlast_append)
    then have "set b \<subseteq> set (butlast m)" by auto
    moreover have "last b \<in> set b" using assms(2) by simp
    ultimately show False using assms(4) by blast
  qed
  show ?thesis unfolding m x y by simp
qed

lemma suffix_whole:
  assumes "suffix b1 m" "b1 \<noteq> []" "hd b1 \<notin> set (tl m)"
  shows "b1 = m"
proof -
  from assms(1) obtain x where m: "m = x @ b1" by (auto simp: suffix_def)
  have "x = []"
  proof (rule ccontr)
    assume "x \<noteq> []"
    then have "set b1 \<subseteq> set (tl m)" unfolding m by (cases x) auto
    moreover have "hd b1 \<in> set b1" using assms(2) by simp
    ultimately show False using assms(3) by blast
  qed
  then show ?thesis unfolding m by simp
qed

lemma prefix_whole:
  assumes "prefix b2 m" "b2 \<noteq> []" "last b2 \<notin> set (butlast m)"
  shows "b2 = m"
proof -
  from assms(1) obtain y where m: "m = b2 @ y" by (auto simp: prefix_def)
  have "y = []"
  proof (rule ccontr)
    assume "y \<noteq> []"
    then have "butlast m = b2 @ butlast y" unfolding m by (simp add: butlast_append)
    then have "set b2 \<subseteq> set (butlast m)" by auto
    moreover have "last b2 \<in> set b2" using assms(2) by simp
    ultimately show False using assms(3) by blast
  qed
  then show ?thesis unfolding m by simp
qed

lemma sublist_left: "sublist b u \<Longrightarrow> sublist b (u @ v)"
  using sublist_append_rightI[of u v] by (rule sublist_order.order.trans[rotated])

lemma sublist_right: "sublist b v \<Longrightarrow> sublist b (u @ v)"
  using sublist_append_leftI[of v u] by (rule sublist_order.order.trans[rotated])

lemma sublist_split:
  assumes b: "sublist b (u @ m @ v)"
    and ne: "b \<noteq> []"
    and h: "hd b \<notin> set (tl m)"
    and l: "last b \<notin> set (butlast m)"
    and nm: "\<not> sublist m b"
  shows "sublist b u \<or> sublist b v"
proof -
  from b consider (left) "sublist b u" | (right) "sublist b (m @ v)"
    | (cross) b1 b2 where "b = b1 @ b2" "suffix b1 u" "prefix b2 (m @ v)"
    unfolding sublist_append[of b u "m @ v"] by blast
  then show ?thesis
  proof cases
    case left
    then show ?thesis by (rule disjI1)
  next
    case right
    then consider (inm) "sublist b m" | (inv) "sublist b v"
      | (cross2) b1 b2 where "b = b1 @ b2" "suffix b1 m" "prefix b2 v"
      unfolding sublist_append[of b m v] by blast
    then show ?thesis
    proof cases
      case inm
      then have "b = m" using ne h l by (rule sublist_whole)
      with nm show ?thesis by simp
    next
      case inv
      then show ?thesis by (rule disjI2)
    next
      case cross2
      show ?thesis
      proof (cases "b1 = []")
        case True
        with cross2 have "prefix b v" by simp
        then have "sublist b v" by (rule prefix_imp_sublist)
        then show ?thesis by (rule disjI2)
      next
        case False
        with cross2(1) have "hd b1 = hd b" by simp
        with h have "hd b1 \<notin> set (tl m)" by simp
        with cross2(2) False have "b1 = m" by (rule suffix_whole)
        with cross2(1) have "sublist m b" by (simp add: sublist_append_rightI)
        with nm show ?thesis by simp
      qed
    qed
  next
    case cross
    show ?thesis
    proof (cases "b2 = []")
      case True
      with cross have "suffix b u" by simp
      then have "sublist b u" by (rule suffix_imp_sublist)
      then show ?thesis by (rule disjI1)
    next
      case False
      from cross(3) consider (short) "prefix b2 m" | (long) us where "b2 = m @ us"
        unfolding prefix_append by blast
      then have "sublist m b"
      proof cases
        case short
        from cross(1) False have "last b2 = last b" by simp
        with l have "last b2 \<notin> set (butlast m)" by simp
        with short False have "b2 = m" by (rule prefix_whole)
        with cross(1) show ?thesis by (simp add: sublist_append_leftI)
      next
        case long
        with cross(1) have "b = b1 @ m @ us" by simp
        then show ?thesis unfolding sublist_def by blast
      qed
      with nm show ?thesis by simp
    qed
  qed
qed

lemma sublist_cut:
  assumes "sublist b (u @ m @ v)" "b \<noteq> []" "hd b \<notin> set (tl m)"
    "last b \<notin> set (butlast m)" "\<not> sublist m b"
  shows "sublist b (u @ v)"
  using sublist_split[OF assms] sublist_left[of b u v] sublist_right[of b v u] by blast

lemma firstIndex_split:
  assumes "firstIndex c m = Some i"
  shows "c = take i c @ m @ drop (i + length m) c"
proof -
  from assms have "prefix m (drop i c)" by (rule firstIndex_prefix)
  then obtain r where r: "drop i c = m @ r" by (auto simp: prefix_def)
  then have d: "drop (i + length m) c = r"
    by (metis add.commute append_eq_conv_conj drop_drop)
  have "c = take i c @ drop i c" by simp
  then show ?thesis unfolding d r .
qed

lemma sublist_replaceFirst:
  assumes "sublist b c" "b \<noteq> []" "hd b \<notin> set (tl m)" "last b \<notin> set (butlast m)"
    "\<not> sublist m b"
  shows "sublist b (replaceFirst c m [])"
proof (cases "firstIndex c m")
  case None
  then show ?thesis using assms(1) by (simp add: replaceFirst_def)
next
  case (Some i)
  then have "prefix m (drop i c)" by (rule firstIndex_prefix)
  then obtain r where r: "drop i c = m @ r" by (auto simp: prefix_def)
  then have d: "drop (i + length m) c = r"
    by (metis add.commute append_eq_conv_conj drop_drop)
  have "c = take i c @ m @ r" using r by (metis append_take_drop_id)
  with assms(1) have "sublist b (take i c @ m @ r)" by simp
  then have "sublist b (take i c @ r)" using assms(2-5) by (rule sublist_cut)
  then show ?thesis using Some d by (simp add: replaceFirst_def)
qed

lemma startMarker_tl: "CHR ''<'' \<notin> set k \<Longrightarrow> CHR ''<'' \<notin> set (tl (startMarker k))"
  by (simp add: startMarker_def)

lemma endMarker_tl: "CHR ''<'' \<notin> set k \<Longrightarrow> CHR ''<'' \<notin> set (tl (endMarker k))"
  by (simp add: endMarker_def)

lemma startMarker_butlast:
  "CHR ''>'' \<notin> set k \<Longrightarrow> CHR ''>'' \<notin> set (butlast (startMarker k))"
  by (simp add: startMarker_def butlast_append)

lemma endMarker_butlast:
  "CHR ''>'' \<notin> set k \<Longrightarrow> CHR ''>'' \<notin> set (butlast (endMarker k))"
  by (simp add: endMarker_def butlast_append)

lemma block_hd: "hd (startMarker k' @ body @ endMarker k') = CHR ''<''"
  by (simp add: startMarker_def)

lemma block_last: "last (startMarker k' @ body @ endMarker k') = CHR ''>''"
  by (simp add: endMarker_def)

lemma repair_keeps:
  assumes lt: "CHR ''<'' \<notin> set k" and gt: "CHR ''>'' \<notin> set k"
    and ns: "\<not> sublist (startMarker k) (startMarker k' @ body @ endMarker k')"
    and ne: "\<not> sublist (endMarker k) (startMarker k' @ body @ endMarker k')"
  shows "sublist (startMarker k' @ body @ endMarker k') c
         \<Longrightarrow> sublist (startMarker k' @ body @ endMarker k') (repairMarkers k c)"
proof (induction c rule: injectIndex_cases[where k = k])
  case (absent c)
  have "repairMarkers k c = c" using absent(1) by (rule repair_absent)
  with absent(2) show ?case by (simp only:)
next
  case (no_end c)
  have "sublist (startMarker k' @ body @ endMarker k') (replaceFirst c (startMarker k) [])"
    using no_end(4) wrapped_nonempty
  proof (rule sublist_replaceFirst)
    show "hd (startMarker k' @ body @ endMarker k') \<notin> set (tl (startMarker k))"
      unfolding block_hd using lt by (rule startMarker_tl)
    show "last (startMarker k' @ body @ endMarker k') \<notin> set (butlast (startMarker k))"
      unfolding block_last using gt by (rule startMarker_butlast)
    show "\<not> sublist (startMarker k) (startMarker k' @ body @ endMarker k')" by (rule ns)
  qed
  then have "sublist (startMarker k' @ body @ endMarker k')
      (repairMarkers k (replaceFirst c (startMarker k) []))" by (rule no_end(3))
  then show ?case unfolding repair_no_end[OF no_end(1,2)] .
next
  case (disorder c i j)
  have "sublist (startMarker k' @ body @ endMarker k') (replaceFirst c (startMarker k) [])"
    using disorder(5) wrapped_nonempty
  proof (rule sublist_replaceFirst)
    show "hd (startMarker k' @ body @ endMarker k') \<notin> set (tl (startMarker k))"
      unfolding block_hd using lt by (rule startMarker_tl)
    show "last (startMarker k' @ body @ endMarker k') \<notin> set (butlast (startMarker k))"
      unfolding block_last using gt by (rule startMarker_butlast)
    show "\<not> sublist (startMarker k) (startMarker k' @ body @ endMarker k')" by (rule ns)
  qed
  then have "sublist (startMarker k' @ body @ endMarker k')
      (replaceFirst (replaceFirst c (startMarker k) []) (endMarker k) [])"
    using wrapped_nonempty
  proof (rule sublist_replaceFirst)
    show "hd (startMarker k' @ body @ endMarker k') \<notin> set (tl (endMarker k))"
      unfolding block_hd using lt by (rule endMarker_tl)
    show "last (startMarker k' @ body @ endMarker k') \<notin> set (butlast (endMarker k))"
      unfolding block_last using gt by (rule endMarker_butlast)
    show "\<not> sublist (endMarker k) (startMarker k' @ body @ endMarker k')" by (rule ne)
  qed
  then have "sublist (startMarker k' @ body @ endMarker k')
      (repairMarkers k (replaceFirst (replaceFirst c (startMarker k) []) (endMarker k) []))"
    by (rule disorder(4))
  then show ?case unfolding repair_disorder[OF disorder(1,2,3)] .
next
  case (well_formed c i j)
  have "repairMarkers k c = c" using well_formed(1,2,3) by (rule repair_well_formed)
  with well_formed(4) show ?case by (simp only:)
qed


lemma block_kept:
  assumes "sublist b (textBefore k c) \<or> sublist b (textAfter k c)"
  shows "sublist b (injectIndex c p k)"
  using assms
proof
  assume "sublist b (textBefore k c)"
  then have "sublist b (textBefore k c @ (startMarker k @ p @ endMarker k) @ textAfter k c)"
    by (rule sublist_left)
  then show ?thesis unfolding inject_decompose[of c p k] .
next
  assume "sublist b (textAfter k c)"
  then have "sublist b ((startMarker k @ p @ endMarker k) @ textAfter k c)"
    by (rule sublist_right)
  then have "sublist b (textBefore k c @ (startMarker k @ p @ endMarker k) @ textAfter k c)"
    by (rule sublist_right)
  then show ?thesis unfolding inject_decompose[of c p k] .
qed

lemma block_kept_absent:
  assumes "\<not> hasExistingIndex (repairMarkers k c) k" "sublist b (repairMarkers k c)"
  shows "sublist b (injectIndex c p k)"
proof -
  have "injectIndex c p k = injectIndex (repairMarkers k c) p k" by (rule inject_repair)
  also have "\<dots> = appendBlock (repairMarkers k c) (startMarker k @ p @ endMarker k)"
    using assms(1) by (rule inject_absent)
  finally have r: "injectIndex c p k
      = appendBlock (repairMarkers k c) (startMarker k @ p @ endMarker k)" .
  from assms(2) show ?thesis unfolding r by (rule sublist_appendBlock_doc)
qed

lemma block_kept_or_inside:
  assumes lt: "CHR ''<'' \<notin> set k" and gt: "CHR ''>'' \<notin> set k"
    and ns: "\<not> sublist (startMarker k) (startMarker k' @ body @ endMarker k')"
    and ne: "\<not> sublist (endMarker k) (startMarker k' @ body @ endMarker k')"
    and b: "sublist (startMarker k' @ body @ endMarker k') c"
  shows "sublist (startMarker k' @ body @ endMarker k') (injectIndex c p k)
     \<or> (\<exists>i j. firstIndex (repairMarkers k c) (startMarker k) = Some i
            \<and> firstIndex (repairMarkers k c) (endMarker k) = Some j
            \<and> sublist (startMarker k' @ body @ endMarker k')
                 (drop (i + length (startMarker k)) (repairMarkers k c))
            \<and> sublist (startMarker k' @ body @ endMarker k') (take j (repairMarkers k c)))"
proof -
  let ?b = "startMarker k' @ body @ endMarker k'"
  let ?r = "repairMarkers k c"
  have r: "sublist ?b ?r" using lt gt ns ne b by (rule repair_keeps)
  from repair_shape[of k c] show ?thesis
  proof
    assume "\<not> hasExistingIndex ?r k"
    then have "sublist ?b (injectIndex c p k)" using r by (rule block_kept_absent)
    then show ?thesis by (rule disjI1)
  next
    assume "\<exists>i j. firstIndex ?r (startMarker k) = Some i
            \<and> firstIndex ?r (endMarker k) = Some j \<and> i < j + length (endMarker k)"
    then obtain i j where i: "firstIndex ?r (startMarker k) = Some i"
      and j: "firstIndex ?r (endMarker k) = Some j" by blast
    have "sublist ?b (take i ?r @ startMarker k @ drop (i + length (startMarker k)) ?r)"
      using r firstIndex_split[OF i] by (simp only:)
    then have s: "sublist ?b (take i ?r) \<or> sublist ?b (drop (i + length (startMarker k)) ?r)"
      using wrapped_nonempty
    proof (rule sublist_split)
      show "hd ?b \<notin> set (tl (startMarker k))"
        unfolding block_hd using lt by (rule startMarker_tl)
      show "last ?b \<notin> set (butlast (startMarker k))"
        unfolding block_last using gt by (rule startMarker_butlast)
      show "\<not> sublist (startMarker k) ?b" by (rule ns)
    qed
    have "sublist ?b (take j ?r @ endMarker k @ drop (j + length (endMarker k)) ?r)"
      using r firstIndex_split[OF j] by (simp only:)
    then have e: "sublist ?b (take j ?r) \<or> sublist ?b (drop (j + length (endMarker k)) ?r)"
      using wrapped_nonempty
    proof (rule sublist_split)
      show "hd ?b \<notin> set (tl (endMarker k))"
        unfolding block_hd using lt by (rule endMarker_tl)
      show "last ?b \<notin> set (butlast (endMarker k))"
        unfolding block_last using gt by (rule endMarker_butlast)
      show "\<not> sublist (endMarker k) ?b" by (rule ne)
    qed
    show ?thesis
    proof (cases "sublist ?b (textBefore k c) \<or> sublist ?b (textAfter k c)")
      case True
      then have "sublist ?b (injectIndex c p k)" by (rule block_kept)
      then show ?thesis by (rule disjI1)
    next
      case False
      then have "\<not> sublist ?b (take i ?r)" "\<not> sublist ?b (drop (j + length (endMarker k)) ?r)"
        unfolding kept_well_formed[OF i j] by blast+
      with s e have "sublist ?b (drop (i + length (startMarker k)) ?r)"
        "sublist ?b (take j ?r)" by blast+
      with i j show ?thesis by blast
    qed
  qed
qed

text \<open>
  Claim C9 (blocks of other namespaces are untouched), counterexample: a block of
  namespace \<open>b\<close> that lies between the markers of namespace \<open>a\<close> is overwritten with the
  rest of \<open>a\<close>'s old body when \<open>a\<close> is injected again; and a block of namespace \<open>b\<close>
  whose body holds a start marker of \<open>a\<close> without an end marker loses that marker, and
  so is not in the result as it was.
\<close>

theorem inject_nested_block_counterexample:
  "includesStr
     (startMarker ''a'' @ startMarker ''b'' @ ''x'' @ endMarker ''b'' @ endMarker ''a'')
     (startMarker ''b'' @ ''x'' @ endMarker ''b'')
   \<and> \<not> includesStr
     (injectIndex
        (startMarker ''a'' @ startMarker ''b'' @ ''x'' @ endMarker ''b'' @ endMarker ''a'')
        ''p'' ''a'')
     (startMarker ''b'' @ ''x'' @ endMarker ''b'')
   \<and> includesStr
     (startMarker ''b'' @ ''x'' @ startMarker ''a'' @ ''y'' @ endMarker ''b'')
     (startMarker ''b'' @ (''x'' @ startMarker ''a'' @ ''y'') @ endMarker ''b'')
   \<and> \<not> includesStr
     (injectIndex
        (startMarker ''b'' @ ''x'' @ startMarker ''a'' @ ''y'' @ endMarker ''b'')
        ''p'' ''a'')
     (startMarker ''b'' @ (''x'' @ startMarker ''a'' @ ''y'') @ endMarker ''b'')"
  by code_simp

text \<open>
  Claim C9, amended. For every document, payload and key, and every block (start
  marker, body, end marker) of a namespace \<open>k'\<close>: the result of injection is
  \<open>textBefore\<close>, then the new block of the key, then \<open>textAfter\<close>; a block that occurs in
  \<open>textBefore\<close> or in \<open>textAfter\<close> occurs in the result; when the repaired document has no
  start marker of the key, a block that occurs in the repaired document occurs in the
  result. When the key has neither a \<open><\<close> nor a \<open>>\<close> character and the block contains
  neither the start marker nor the end marker of the key, a block that occurs in the
  document occurs in the repaired document, and it occurs in the result unless the
  repaired document has a first start marker and a first end marker of the key and the
  block occurs both after that start marker and before that end marker. When the
  document has no start marker of the key, a block that occurs in the document occurs
  in the result. When the first start marker of the key stands at \<open>i\<close> and the first end
  marker at \<open>j\<close> and ends after \<open>i\<close>, a block that occurs in the first \<open>i\<close> characters or
  in what follows that end marker occurs in the result.
\<close>

theorem inject_preserves_outside_blocks:
  "injectIndex doc p k
     = textBefore k doc @ (startMarker k @ p @ endMarker k) @ textAfter k doc
   \<and> (includesStr (textBefore k doc) (startMarker k' @ body @ endMarker k')
        \<or> includesStr (textAfter k doc) (startMarker k' @ body @ endMarker k')
      \<longrightarrow> includesStr (injectIndex doc p k) (startMarker k' @ body @ endMarker k'))
   \<and> (\<not> hasExistingIndex (repairMarkers k doc) k
        \<and> includesStr (repairMarkers k doc) (startMarker k' @ body @ endMarker k')
      \<longrightarrow> includesStr (injectIndex doc p k) (startMarker k' @ body @ endMarker k'))
   \<and> (CHR ''<'' \<notin> set k \<and> CHR ''>'' \<notin> set k
        \<and> \<not> includesStr (startMarker k' @ body @ endMarker k') (startMarker k)
        \<and> \<not> includesStr (startMarker k' @ body @ endMarker k') (endMarker k)
        \<and> includesStr doc (startMarker k' @ body @ endMarker k')
      \<longrightarrow> includesStr (repairMarkers k doc) (startMarker k' @ body @ endMarker k')
          \<and> (includesStr (injectIndex doc p k) (startMarker k' @ body @ endMarker k')
               \<or> (\<exists>i j. firstIndex (repairMarkers k doc) (startMarker k) = Some i
                     \<and> firstIndex (repairMarkers k doc) (endMarker k) = Some j
                     \<and> includesStr (drop (i + length (startMarker k)) (repairMarkers k doc))
                          (startMarker k' @ body @ endMarker k')
                     \<and> includesStr (take j (repairMarkers k doc))
                          (startMarker k' @ body @ endMarker k'))))
   \<and> (\<not> hasExistingIndex doc k \<and> includesStr doc (startMarker k' @ body @ endMarker k')
      \<longrightarrow> includesStr (injectIndex doc p k) (startMarker k' @ body @ endMarker k'))
   \<and> (firstIndex doc (startMarker k) = Some i \<and> firstIndex doc (endMarker k) = Some j
        \<and> i < j + length (endMarker k)
        \<and> (includesStr (take i doc) (startMarker k' @ body @ endMarker k')
             \<or> includesStr (drop (j + length (endMarker k)) doc)
                  (startMarker k' @ body @ endMarker k'))
      \<longrightarrow> includesStr (injectIndex doc p k) (startMarker k' @ body @ endMarker k'))"
proof (intro conjI impI)
  show "injectIndex doc p k
     = textBefore k doc @ (startMarker k @ p @ endMarker k) @ textAfter k doc"
    by (rule inject_decompose)
next
  assume "includesStr (textBefore k doc) (startMarker k' @ body @ endMarker k')
        \<or> includesStr (textAfter k doc) (startMarker k' @ body @ endMarker k')"
  then show "includesStr (injectIndex doc p k) (startMarker k' @ body @ endMarker k')"
    unfolding includesStr_def by (rule block_kept)
next
  assume "\<not> hasExistingIndex (repairMarkers k doc) k
        \<and> includesStr (repairMarkers k doc) (startMarker k' @ body @ endMarker k')"
  then have "\<not> hasExistingIndex (repairMarkers k doc) k"
    and "sublist (startMarker k' @ body @ endMarker k') (repairMarkers k doc)"
    unfolding includesStr_def by (rule conjunct1, rule conjunct2)
  then show "includesStr (injectIndex doc p k) (startMarker k' @ body @ endMarker k')"
    unfolding includesStr_def by (rule block_kept_absent)
next
  assume h: "CHR ''<'' \<notin> set k \<and> CHR ''>'' \<notin> set k
        \<and> \<not> includesStr (startMarker k' @ body @ endMarker k') (startMarker k)
        \<and> \<not> includesStr (startMarker k' @ body @ endMarker k') (endMarker k)
        \<and> includesStr doc (startMarker k' @ body @ endMarker k')"
  then have lt: "CHR ''<'' \<notin> set k" and gt: "CHR ''>'' \<notin> set k"
    and ns: "\<not> sublist (startMarker k) (startMarker k' @ body @ endMarker k')"
    and ne: "\<not> sublist (endMarker k) (startMarker k' @ body @ endMarker k')"
    and b: "sublist (startMarker k' @ body @ endMarker k') doc"
    unfolding includesStr_def by blast+
  show "includesStr (repairMarkers k doc) (startMarker k' @ body @ endMarker k')"
    unfolding includesStr_def using lt gt ns ne b by (rule repair_keeps)
  show "includesStr (injectIndex doc p k) (startMarker k' @ body @ endMarker k')
        \<or> (\<exists>i j. firstIndex (repairMarkers k doc) (startMarker k) = Some i
              \<and> firstIndex (repairMarkers k doc) (endMarker k) = Some j
              \<and> includesStr (drop (i + length (startMarker k)) (repairMarkers k doc))
                   (startMarker k' @ body @ endMarker k')
              \<and> includesStr (take j (repairMarkers k doc))
                   (startMarker k' @ body @ endMarker k'))"
    unfolding includesStr_def using lt gt ns ne b by (rule block_kept_or_inside)
next
  define b where "b = startMarker k' @ body @ endMarker k'"
  assume "\<not> hasExistingIndex doc k \<and> includesStr doc (startMarker k' @ body @ endMarker k')"
  then have a: "\<not> hasExistingIndex doc k" and s: "sublist b doc"
    by (simp_all add: includesStr_def b_def)
  from s have "sublist b (appendBlock doc (startMarker k @ p @ endMarker k))"
    by (rule sublist_appendBlock_doc)
  then show "includesStr (injectIndex doc p k) (startMarker k' @ body @ endMarker k')"
    unfolding inject_absent[OF a] includesStr_def b_def .
next
  define b where "b = startMarker k' @ body @ endMarker k'"
  define e where "e = j + length (endMarker k)"
  assume h: "firstIndex doc (startMarker k) = Some i \<and> firstIndex doc (endMarker k) = Some j
        \<and> i < j + length (endMarker k)
        \<and> (includesStr (take i doc) (startMarker k' @ body @ endMarker k')
             \<or> includesStr (drop (j + length (endMarker k)) doc)
                  (startMarker k' @ body @ endMarker k'))"
  then have i: "firstIndex doc (startMarker k) = Some i"
    and j: "firstIndex doc (endMarker k) = Some j"
    and ij: "i < j + length (endMarker k)"
    and s: "sublist b (take i doc) \<or> sublist b (drop e doc)"
    by (simp_all add: includesStr_def b_def e_def)
  have r: "injectIndex doc p k = take i doc @ (startMarker k @ p @ endMarker k) @ drop e doc"
    unfolding e_def using inject_well_formed[OF i j ij] by simp
  from s have "sublist b (take i doc @ (startMarker k @ p @ endMarker k) @ drop e doc)"
  proof
    assume "sublist b (take i doc)"
    then show ?thesis by (rule sublist_left)
  next
    assume "sublist b (drop e doc)"
    then have "sublist b ((startMarker k @ p @ endMarker k) @ drop e doc)"
      by (rule sublist_right)
    then show ?thesis by (rule sublist_right)
  qed
  then show "includesStr (injectIndex doc p k) (startMarker k' @ body @ endMarker k')"
    unfolding r includesStr_def b_def .
qed

text \<open>
  Witness for C9: updating \<open>react\<close> in a document that also holds a \<open>nextjs\<close> block,
  once without and twice with an existing \<open>react\<close> block; the document of the
  repository's test of a corrupted marker order, followed by a block of namespace \<open>b\<close>,
  which the repair and the injection keep; and the document with the block of \<open>b\<close>
  between the markers of \<open>a\<close>, where the block survives the repair.
\<close>

theorem inject_preserves_outside_blocks_witness:
  "\<not> hasExistingIndex
       (''# Project\<newline>\<newline>'' @ startMarker ''nextjs'' @ ''nextjs v1'' @ endMarker ''nextjs'' @ ''\<newline>'')
       ''react''
   \<and> includesStr
       (''# Project\<newline>\<newline>'' @ startMarker ''nextjs'' @ ''nextjs v1'' @ endMarker ''nextjs'' @ ''\<newline>'')
       (startMarker ''nextjs'' @ ''nextjs v1'' @ endMarker ''nextjs'')
   \<and> includesStr
       (injectIndex
          (''# Project\<newline>\<newline>'' @ startMarker ''nextjs'' @ ''nextjs v1'' @ endMarker ''nextjs'' @ ''\<newline>'')
          ''react v2'' ''react'')
       (startMarker ''nextjs'' @ ''nextjs v1'' @ endMarker ''nextjs'')
   \<and> firstIndex
       (''# Project\<newline>\<newline>'' @ startMarker ''react'' @ ''react v1'' @ endMarker ''react'' @ ''\<newline>\<newline>''
          @ startMarker ''nextjs'' @ ''nextjs v1'' @ endMarker ''nextjs'' @ ''\<newline>'')
       (startMarker ''react'') = Some 11
   \<and> firstIndex
       (''# Project\<newline>\<newline>'' @ startMarker ''react'' @ ''react v1'' @ endMarker ''react'' @ ''\<newline>\<newline>''
          @ startMarker ''nextjs'' @ ''nextjs v1'' @ endMarker ''nextjs'' @ ''\<newline>'')
       (endMarker ''react'') = Some 54
   \<and> (11::nat) < 54 + length (endMarker ''react'')
   \<and> includesStr
       (drop (54 + length (endMarker ''react''))
          (''# Project\<newline>\<newline>'' @ startMarker ''react'' @ ''react v1'' @ endMarker ''react'' @ ''\<newline>\<newline>''
          @ startMarker ''nextjs'' @ ''nextjs v1'' @ endMarker ''nextjs'' @ ''\<newline>''))
       (startMarker ''nextjs'' @ ''nextjs v1'' @ endMarker ''nextjs'')
   \<and> includesStr
       (injectIndex
          (''# Project\<newline>\<newline>'' @ startMarker ''react'' @ ''react v1'' @ endMarker ''react'' @ ''\<newline>\<newline>''
          @ startMarker ''nextjs'' @ ''nextjs v1'' @ endMarker ''nextjs'' @ ''\<newline>'')
          ''react v2'' ''react'')
       (startMarker ''nextjs'' @ ''nextjs v1'' @ endMarker ''nextjs'')
   \<and> includesStr
       (textAfter ''react''
          (''# Project\<newline>\<newline>'' @ startMarker ''react'' @ ''react v1'' @ endMarker ''react'' @ ''\<newline>\<newline>''
          @ startMarker ''nextjs'' @ ''nextjs v1'' @ endMarker ''nextjs'' @ ''\<newline>''))
       (startMarker ''nextjs'' @ ''nextjs v1'' @ endMarker ''nextjs'')
   \<and> includesStr
       (injectIndex
          (''# Project\<newline>\<newline>'' @ startMarker ''react'' @ ''react v1'' @ endMarker ''react'' @ ''\<newline>\<newline>''
          @ startMarker ''nextjs'' @ ''nextjs v1'' @ endMarker ''nextjs'' @ ''\<newline>'')
          ''react v3'' ''react'')
       (startMarker ''nextjs'' @ ''nextjs v1'' @ endMarker ''nextjs'')
   \<and> CHR ''<'' \<notin> set ''lib''
   \<and> CHR ''>'' \<notin> set ''lib''
   \<and> \<not> includesStr (startMarker ''b'' @ ''x'' @ endMarker ''b'') (startMarker ''lib'')
   \<and> \<not> includesStr (startMarker ''b'' @ ''x'' @ endMarker ''b'') (endMarker ''lib'')
   \<and> includesStr
       (''# Header\<newline>'' @ endMarker ''lib'' @ ''old'' @ startMarker ''lib'' @ ''\<newline>''
          @ startMarker ''b'' @ ''x'' @ endMarker ''b'')
       (startMarker ''b'' @ ''x'' @ endMarker ''b'')
   \<and> includesStr
       (repairMarkers ''lib''
          (''# Header\<newline>'' @ endMarker ''lib'' @ ''old'' @ startMarker ''lib'' @ ''\<newline>''
          @ startMarker ''b'' @ ''x'' @ endMarker ''b''))
       (startMarker ''b'' @ ''x'' @ endMarker ''b'')
   \<and> \<not> hasExistingIndex
       (repairMarkers ''lib''
          (''# Header\<newline>'' @ endMarker ''lib'' @ ''old'' @ startMarker ''lib'' @ ''\<newline>''
          @ startMarker ''b'' @ ''x'' @ endMarker ''b''))
       ''lib''
   \<and> includesStr
       (injectIndex
          (''# Header\<newline>'' @ endMarker ''lib'' @ ''old'' @ startMarker ''lib'' @ ''\<newline>''
          @ startMarker ''b'' @ ''x'' @ endMarker ''b'')
          ''new content'' ''lib'')
       (startMarker ''b'' @ ''x'' @ endMarker ''b'')
   \<and> CHR ''<'' \<notin> set ''a''
   \<and> CHR ''>'' \<notin> set ''a''
   \<and> \<not> includesStr (startMarker ''b'' @ ''x'' @ endMarker ''b'') (startMarker ''a'')
   \<and> \<not> includesStr (startMarker ''b'' @ ''x'' @ endMarker ''b'') (endMarker ''a'')
   \<and> includesStr
       (startMarker ''a'' @ startMarker ''b'' @ ''x'' @ endMarker ''b'' @ endMarker ''a'')
       (startMarker ''b'' @ ''x'' @ endMarker ''b'')
   \<and> (includesStr
        (injectIndex
           (startMarker ''a'' @ startMarker ''b'' @ ''x'' @ endMarker ''b'' @ endMarker ''a'')
           ''p'' ''a'')
        (startMarker ''b'' @ ''x'' @ endMarker ''b'')
      \<or> (\<exists>i j. firstIndex (repairMarkers ''a'' (startMarker ''a'' @ startMarker ''b'' @ ''x'' @ endMarker ''b'' @ endMarker ''a'')) (startMarker ''a'') = Some i
            \<and> firstIndex (repairMarkers ''a'' (startMarker ''a'' @ startMarker ''b'' @ ''x'' @ endMarker ''b'' @ endMarker ''a'')) (endMarker ''a'') = Some j
            \<and> includesStr (drop (i + length (startMarker ''a'')) (repairMarkers ''a'' (startMarker ''a'' @ startMarker ''b'' @ ''x'' @ endMarker ''b'' @ endMarker ''a'')))
                 (startMarker ''b'' @ ''x'' @ endMarker ''b'')
            \<and> includesStr (take j (repairMarkers ''a'' (startMarker ''a'' @ startMarker ''b'' @ ''x'' @ endMarker ''b'' @ endMarker ''a'')))
                 (startMarker ''b'' @ ''x'' @ endMarker ''b'')))"
proof -
  let ?d1 = "''# Project\<newline>\<newline>'' @ startMarker ''nextjs'' @ ''nextjs v1'' @ endMarker ''nextjs'' @ ''\<newline>''"
  let ?d2 = "''# Project\<newline>\<newline>'' @ startMarker ''react'' @ ''react v1'' @ endMarker ''react'' @ ''\<newline>\<newline>''
          @ startMarker ''nextjs'' @ ''nextjs v1'' @ endMarker ''nextjs'' @ ''\<newline>''"
  let ?d3 = "''# Header\<newline>'' @ endMarker ''lib'' @ ''old'' @ startMarker ''lib'' @ ''\<newline>''
          @ startMarker ''b'' @ ''x'' @ endMarker ''b''"
  let ?d4 = "startMarker ''a'' @ startMarker ''b'' @ ''x'' @ endMarker ''b'' @ endMarker ''a''"
  let ?n = "startMarker ''nextjs'' @ ''nextjs v1'' @ endMarker ''nextjs''"
  let ?b = "startMarker ''b'' @ ''x'' @ endMarker ''b''"
  note t1 = inject_preserves_outside_blocks[where doc="?d1" and k="''react''"
      and k'="''nextjs''" and body="''nextjs v1''" and p="''react v2''" and i=0 and j=0]
  note t2 = inject_preserves_outside_blocks[where doc="?d2" and k="''react''"
      and k'="''nextjs''" and body="''nextjs v1''" and p="''react v2''" and i=11 and j=54]
  note t2' = inject_preserves_outside_blocks[where doc="?d2" and k="''react''"
      and k'="''nextjs''" and body="''nextjs v1''" and p="''react v3''" and i=0 and j=0]
  note t3 = inject_preserves_outside_blocks[where doc="?d3" and k="''lib''"
      and k'="''b''" and body="''x''" and p="''new content''" and i=0 and j=0]
  note t4 = inject_preserves_outside_blocks[where doc="?d4" and k="''a''"
      and k'="''b''" and body="''x''" and p="''p''" and i=0 and j=0]
  note t2B = conjunct1[OF conjunct2[OF t2']]
  note t3C = conjunct1[OF conjunct2[OF conjunct2[OF t3]]]
  note t3D = conjunct1[OF conjunct2[OF conjunct2[OF conjunct2[OF t3]]]]
  note t4D = conjunct1[OF conjunct2[OF conjunct2[OF conjunct2[OF t4]]]]
  note t1E = conjunct1[OF conjunct2[OF conjunct2[OF conjunct2[OF conjunct2[OF t1]]]]]
  note t2F = conjunct2[OF conjunct2[OF conjunct2[OF conjunct2[OF conjunct2[OF t2]]]]]
  have a1: "\<not> hasExistingIndex ?d1 ''react''" by code_simp
  have a2: "includesStr ?d1 ?n" by code_simp
  have b1: "firstIndex ?d2 (startMarker ''react'') = Some 11" by code_simp
  have b2: "firstIndex ?d2 (endMarker ''react'') = Some 54" by code_simp
  have b3: "(11::nat) < 54 + length (endMarker ''react'')" by code_simp
  have b4: "includesStr (drop (54 + length (endMarker ''react'')) ?d2) ?n" by code_simp
  have b5: "includesStr (textAfter ''react'' ?d2) ?n" by code_simp
  have c1: "CHR ''<'' \<notin> set ''lib''" by simp
  have c2: "CHR ''>'' \<notin> set ''lib''" by simp
  have c3: "\<not> includesStr ?b (startMarker ''lib'')" by code_simp
  have c4: "\<not> includesStr ?b (endMarker ''lib'')" by code_simp
  have c5: "includesStr ?d3 ?b" by code_simp
  have c6: "\<not> hasExistingIndex (repairMarkers ''lib'' ?d3) ''lib''" by code_simp
  have e1: "CHR ''<'' \<notin> set ''a''" by simp
  have e2: "CHR ''>'' \<notin> set ''a''" by simp
  have e3: "\<not> includesStr ?b (startMarker ''a'')" by code_simp
  have e4: "\<not> includesStr ?b (endMarker ''a'')" by code_simp
  have e5: "includesStr ?d4 ?b" by code_simp
  have r1: "includesStr (injectIndex ?d1 ''react v2'' ''react'') ?n"
    by (rule mp[OF t1E conjI[OF a1 a2]])
  have r2: "includesStr (injectIndex ?d2 ''react v2'' ''react'') ?n"
    by (rule mp[OF t2F conjI[OF b1 conjI[OF b2 conjI[OF b3 disjI2[OF b4]]]]])
  have r3: "includesStr (injectIndex ?d2 ''react v3'' ''react'') ?n"
    by (rule mp[OF t2B disjI2[OF b5]])
  note d3 = mp[OF t3D conjI[OF c1 conjI[OF c2 conjI[OF c3 conjI[OF c4 c5]]]]]
  have r4: "includesStr (repairMarkers ''lib'' ?d3) ?b" by (rule conjunct1[OF d3])
  have r5: "includesStr (injectIndex ?d3 ''new content'' ''lib'') ?b"
    by (rule mp[OF t3C conjI[OF c6 r4]])
  note d4 = mp[OF t4D conjI[OF e1 conjI[OF e2 conjI[OF e3 conjI[OF e4 e5]]]]]
  note r6 = conjunct2[OF d4]
  show ?thesis by (intro conjI) (fact a1 a2 r1 b1 b2 b3 b4 r2 b5 r3 c1 c2 c3 c4 c5 r4 c6 r5 e1 e2 e3 e4 e5 r6)+
qed

section \<open>Properties of the doc tree builder\<close>

text \<open>
  Claim C3 (round trip of the relative paths). The claim fails on the code for files
  three or more directories deep: \<open>restoreFullPaths\<close> descends into subsections with the
  parent directory extended by the section name, although the paths of those
  subsections already carry the section name from the recursive \<open>buildDocTree\<close> call,
  so that name is prepended twice. The theorem evaluates the build and the depth-first
  collection on the single file \<open>a/b/c/d.md\<close>, for every comparator, and on the path
  of the repository's own test, two directories deep, which does come back.
\<close>

theorem buildDocTree_deep_path:
  "collectAllFiles (buildDocTree localeCompare [\<lparr>relativePath = ''a/b/c/d.md''\<rparr>])
   = [''a/b/b/c/d.md'']
   \<and> buildDocTree localeCompare [\<lparr>relativePath = ''a/b/c/d.md''\<rparr>]
     = [DocSection ''a'' []
          [DocSection ''b'' []
             [DocSection ''c'' [\<lparr>relativePath = ''a/b/b/c/d.md''\<rparr>] []]]]
   \<and> collectAllFiles
       (buildDocTree localeCompare [\<lparr>relativePath = ''guide/advanced/composition.md''\<rparr>])
     = [''guide/advanced/composition.md'']"
  by code_simp

section \<open>Properties of the index generator\<close>

lemma replaceAllChar_append:
  "replaceAllChar c r (a @ b) = replaceAllChar c r a @ replaceAllChar c r b"
  by (simp add: replaceAllChar_def)

lemma replaceAllChar_Nil: "replaceAllChar c r [] = []"
  by (simp add: replaceAllChar_def)

lemma safeFile_Nil: "safeFile [] = []"
  by (simp add: safeFile_def replaceAllChar_Nil)

lemma safeFile_append: "safeFile (a @ b) = safeFile a @ safeFile b"
  by (simp add: safeFile_def replaceAllChar_append)

lemma safeFile_single:
  "safeFile [c] =
     (if c = CHR ''|'' then ''%7C'' else if c = CHR '','' then ''%2C''
      else if c = CHR ''{'' then ''%7B'' else if c = CHR ''}'' then ''%7D'' else [c])"
  by (simp add: safeFile_def replaceAllChar_def)

lemma safeFile_percentEscape: "safeFile f = percentEscape f"
proof (induction f)
  case Nil
  show ?case by (simp add: safeFile_Nil percentEscape_def)
next
  case (Cons c f)
  have "safeFile (c # f) = safeFile [c] @ safeFile f"
    using safeFile_append[of "[c]" f] by simp
  also have "\<dots> = percentEscape [c] @ percentEscape f"
    unfolding Cons.IH safeFile_single by (simp add: percentEscape_def)
  also have "\<dots> = percentEscape (c # f)" by (simp add: percentEscape_def)
  finally show ?case .
qed

lemma percentEscape_no_delimiter:
  "set (percentEscape f) \<inter> {CHR ''|'', CHR '','', CHR ''{'', CHR ''}''} = {}"
  by (induction f) (auto simp: percentEscape_def)

text \<open>
  Claim C4 (escaping of the four delimiter characters), counterexample: only base names
  are escaped. The directory of a group is written as it is, so a directory named
  \<open>a,b\<close> puts a raw comma into the output.
\<close>

theorem generateIndex_raw_directory_counterexample:
  "generateIndex [DocSection ''a,b'' [\<lparr>relativePath = ''a,b/c.md''\<rparr>] []]
     \<lparr>metaName = ''TestLib'', docsPath = ''./docs'', version = None, outputFile = None,
      libKey = None, repo = None, repoDocsPath = None\<rparr>
   = ''[TestLib Docs Index]|root: ./docs|IMPORTANT: Prefer retrieval-led reasoning over pre-training-led reasoning for any TestLib tasks.|If docs missing, run: npx docs-agents-md --output AGENTS.md|a,b:{c.md}''
   \<and> groupByDirectory (collectAllFiles [DocSection ''a,b'' [\<lparr>relativePath = ''a,b/c.md''\<rparr>] []])
     = [(''a,b'', [''c.md''])]"
  by code_simp

text \<open>
  Claim C4, amended: the output is the \<open>|\<close>-joined list of the four metadata parts and
  one part \<open>dir:{n1,...,nk}\<close> per directory group, where each \<open>ni\<close> is a base name with
  every \<open>|\<close>, comma, \<open>{\<close> and \<open>}\<close> replaced by \<open>%7C\<close>, \<open>%2C\<close>, \<open>%7B\<close>, \<open>%7D\<close> (the four
  chained replacements of the source equal this single pass); no escaped base name
  contains one of the four characters, and \<open>a,b.md\<close> is written \<open>a%2Cb.md\<close>. Directory
  names and metadata values are not escaped.
\<close>

theorem generateIndex_escapes_base_names:
  "generateIndex sections meta =
     joinWith ''|''
       (metaParts meta
        @ map (\<lambda>(dir, names). dir @ '':{'' @ joinWith '','' (map percentEscape names) @ ''}'')
            (groupByDirectory (collectAllFiles sections)))
   \<and> set (percentEscape n) \<inter> {CHR ''|'', CHR '','', CHR ''{'', CHR ''}''} = {}
   \<and> percentEscape ''a,b.md'' = ''a%2Cb.md''"
proof (intro conjI)
  have "map safeFile = map percentEscape" by (rule ext) (simp add: safeFile_percentEscape)
  then show "generateIndex sections meta =
     joinWith ''|''
       (metaParts meta
        @ map (\<lambda>(dir, names). dir @ '':{'' @ joinWith '','' (map percentEscape names) @ ''}'')
            (groupByDirectory (collectAllFiles sections)))"
    unfolding generateIndex_def by (simp only:)
  show "set (percentEscape n) \<inter> {CHR ''|'', CHR '','', CHR ''{'', CHR ''}''} = {}"
    by (rule percentEscape_no_delimiter)
  show "percentEscape ''a,b.md'' = ''a%2Cb.md''" by (simp add: percentEscape_def)
qed

section \<open>Properties of the docs path detector\<close>

lemma map_of_mapSet: "map_of (mapSet k v m) = (map_of m)(k \<mapsto> v)"
  by (induction m) (auto simp: fun_eq_iff)

lemma getOr0_mapSet: "getOr0 (mapSet k v m) a = (if a = k then v else getOr0 m a)"
  by (simp add: getOr0_def map_of_mapSet)

lemma getOr0_addAncestor:
  "getOr0 (addAncestor parts c agg i) a =
     getOr0 agg a
     + (if parts ! (i - 1) \<notin> set EXCLUDED_DIRS \<and> joinWith ''/'' (take i parts) = a
        then c else 0)"
  by (simp add: addAncestor_def getOr0_mapSet)

lemma getOr0_foldl_addAncestor:
  "getOr0 (foldl (addAncestor parts c) agg is) a =
     getOr0 agg a + c * int (count_list (visited parts is) a)"
proof (induction "is" arbitrary: agg)
  case Nil
  then show ?case by (simp add: visited_def)
next
  case (Cons i "is")
  have "getOr0 (foldl (addAncestor parts c) agg (i # is)) a
        = getOr0 (addAncestor parts c agg i) a + c * int (count_list (visited parts is) a)"
    by (simp add: Cons.IH)
  also have "\<dots> = getOr0 agg a + c * int (count_list (visited parts (i # is)) a)"
    unfolding getOr0_addAncestor by (simp add: visited_def algebra_simps)
  finally show ?case .
qed

lemma prefixes_conv_take: "prefixes xs = map (\<lambda>i. take i xs) [0 ..< Suc (length xs)]"
proof (induction xs rule: rev_induct)
  case Nil
  show ?case by simp
next
  case (snoc x xs)
  have "map (\<lambda>i. take i (xs @ [x])) [0 ..< Suc (length xs)]
        = map (\<lambda>i. take i xs) [0 ..< Suc (length xs)]"
    by (rule map_cong) auto
  then show ?case using snoc by simp
qed

lemma tl_prefixes_conv_take:
  "tl (prefixes xs) = map (\<lambda>i. take i xs) [1 ..< Suc (length xs)]"
proof -
  have "[0 ..< Suc (length xs)] = 0 # [1 ..< Suc (length xs)]"
    by (simp add: upt_conv_Cons del: upt_Suc)
  then show ?thesis unfolding prefixes_conv_take by (simp del: upt_Suc)
qed

lemma last_take: "0 < i \<Longrightarrow> i \<le> length xs \<Longrightarrow> last (take i xs) = xs ! (i - 1)"
  by (cases i) (simp_all add: take_Suc_conv_app_nth)

lemma visited_all: "visited (splitOn CHR ''/'' d) [1 ..< Suc (length (splitOn CHR ''/'' d))]
                    = selfAndAncestors d"
proof -
  define parts where "parts = splitOn CHR ''/'' d"
  have "filter (\<lambda>ps. last ps \<notin> set EXCLUDED_DIRS)
          (map (\<lambda>i. take i parts) [1 ..< Suc (length parts)])
        = map (\<lambda>i. take i parts)
            (filter (\<lambda>i. last (take i parts) \<notin> set EXCLUDED_DIRS) [1 ..< Suc (length parts)])"
    by (simp add: filter_map comp_def del: upt_Suc)
  also have "filter (\<lambda>i. last (take i parts) \<notin> set EXCLUDED_DIRS) [1 ..< Suc (length parts)]
             = filter (\<lambda>i. parts ! (i - 1) \<notin> set EXCLUDED_DIRS) [1 ..< Suc (length parts)]"
    by (rule filter_cong) (auto simp: last_take simp del: upt_Suc)
  finally show ?thesis
    unfolding selfAndAncestors_def visited_def tl_prefixes_conv_take parts_def[symmetric]
    by (simp add: comp_def del: upt_Suc)
qed

lemma getOr0_aggregateDir:
  "getOr0 (aggregateDir agg (d, c)) a
   = getOr0 agg a + c * int (count_list (selfAndAncestors d) a)"
  unfolding aggregateDir_def fst_conv snd_conv getOr0_foldl_addAncestor visited_all ..

lemma joinWith_append:
  "ps \<noteq> [] \<Longrightarrow> zs \<noteq> [] \<Longrightarrow>
   joinWith sep (ps @ zs) = joinWith sep ps @ sep @ joinWith sep zs"
proof (induction sep ps rule: joinWith.induct)
  case (1 sep)
  then show ?case by simp
next
  case (2 sep p)
  then show ?case by (cases zs) simp_all
next
  case (3 sep p q ps)
  then show ?case by simp
qed

lemma tl_prefixes_nonempty: "ps \<in> set (tl (prefixes xs)) \<Longrightarrow> ps \<noteq> [] \<and> prefix ps xs"
  by (cases xs) auto

lemma join_prefix_length:
  assumes "ps \<noteq> []" "prefix ps qs" "ps \<noteq> qs"
  shows "length (joinWith ''/'' ps) < length (joinWith ''/'' qs)"
proof -
  from assms(2,3) obtain zs where zs: "qs = ps @ zs" "zs \<noteq> []"
    by (auto simp: prefix_def)
  show ?thesis unfolding zs(1) joinWith_append[OF assms(1) zs(2)] by simp
qed

lemma join_inj_on_prefixes: "inj_on (joinWith ''/'') (set (tl (prefixes xs)))"
proof (rule inj_onI)
  fix ps qs
  assume ps: "ps \<in> set (tl (prefixes xs))" and qs: "qs \<in> set (tl (prefixes xs))"
    and eq: "joinWith ''/'' ps = joinWith ''/'' qs"
  from ps qs have ne: "ps \<noteq> []" "qs \<noteq> []" and pre: "prefix ps xs" "prefix qs xs"
    using tl_prefixes_nonempty by blast+
  from pre have "prefix ps qs \<or> prefix qs ps" by (rule prefix_same_cases)
  then show "ps = qs"
  proof
    assume "prefix ps qs"
    with ne(1) eq join_prefix_length[of ps qs] show ?thesis by fastforce
  next
    assume "prefix qs ps"
    with ne(2) eq join_prefix_length[of qs ps] show ?thesis by fastforce
  qed
qed

lemma distinct_selfAndAncestors: "distinct (selfAndAncestors d)"
proof -
  define xs where "xs = splitOn CHR ''/'' d"
  define P where "P = (\<lambda>ps :: string list. last ps \<notin> set EXCLUDED_DIRS)"
  have "distinct (tl (prefixes xs))" by (simp add: distinct_tl distinct_prefixes)
  then have d: "distinct (filter P (tl (prefixes xs)))" by simp
  have "inj_on (joinWith ''/'') (set (filter P (tl (prefixes xs))))"
    by (rule inj_on_subset[OF join_inj_on_prefixes]) auto
  with d show ?thesis
    unfolding selfAndAncestors_def xs_def[symmetric] P_def[symmetric]
    by (simp add: distinct_map)
qed

lemma count_list_distinct: "distinct xs \<Longrightarrow> count_list xs a = (if a \<in> set xs then 1 else 0)"
  by (induction xs) auto

lemma getOr0_aggregateDir_mem:
  "getOr0 (aggregateDir agg (d, c)) a
   = getOr0 agg a + (if a \<in> set (selfAndAncestors d) then c else 0)"
  unfolding getOr0_aggregateDir count_list_distinct[OF distinct_selfAndAncestors] by simp

lemma getOr0_foldl_aggregateDir:
  "getOr0 (foldl aggregateDir agg dirCounts) a
   = getOr0 agg a
     + sum_list (map snd (filter (\<lambda>(d, c). a \<in> set (selfAndAncestors d)) dirCounts))"
proof (induction dirCounts arbitrary: agg)
  case Nil
  show ?case by simp
next
  case (Cons e dirCounts)
  obtain d c where e: "e = (d, c)" by (cases e)
  show ?case unfolding e by (simp add: Cons.IH getOr0_aggregateDir_mem)
qed

lemma getOr0_aggregatedOf:
  "getOr0 (aggregatedOf dirCounts) a
   = sum_list (map snd (filter (\<lambda>(d, c). a \<in> set (selfAndAncestors d)) dirCounts))"
  unfolding aggregatedOf_def getOr0_foldl_aggregateDir by (simp add: getOr0_def)

lemma weighted_mapSet_incr:
  "v = getOr0 m k + 1 \<Longrightarrow> weighted (mapSet k v m) g = weighted m g + g k"
proof (induction m)
  case Nil
  then show ?case by (simp add: weighted_def getOr0_def)
next
  case (Cons e m)
  obtain k' v' where e: "e = (k', v')" by (cases e)
  show ?case
  proof (cases "k = k'")
    case True
    with Cons.prems show ?thesis
      by (simp add: e weighted_def getOr0_def algebra_simps)
  next
    case False
    with Cons.prems have "v = getOr0 m k + 1" by (simp add: e getOr0_def)
    from Cons.IH[OF this] False show ?thesis by (simp add: e weighted_def)
  qed
qed

lemma countStep_qualifies:
  "countStep m p =
     (if qualifies p then mapSet (dirname p) (getOr0 m (dirname p) + 1) m else m)"
  by (simp add: countStep_def qualifies_def)

lemma weighted_countStep:
  "weighted (countStep m p) g = weighted m g + (if qualifies p then g (dirname p) else 0)"
  by (simp add: countStep_qualifies weighted_mapSet_incr)

lemma weighted_foldl_countStep:
  "weighted (foldl countStep m paths) g
   = weighted m g + sum_list (map (\<lambda>p. g (dirname p)) (filter qualifies paths))"
proof (induction paths arbitrary: m)
  case Nil
  show ?case by simp
next
  case (Cons p paths)
  show ?case by (simp add: Cons.IH weighted_countStep)
qed

lemma weighted_indicator:
  "weighted m (\<lambda>d. if P d then 1 else 0) = sum_list (map snd (filter (\<lambda>(d, c). P d) m))"
  unfolding weighted_def by (induction m) auto

lemma sum_list_indicator:
  "sum_list (map (\<lambda>p. if P p then 1 else (0::int)) xs) = int (length (filter P xs))"
  by (induction xs) auto

lemma aggregated_is_cumulativeCount:
  "getOr0 (aggregatedOf (dirCountsOf paths)) a = cumulativeCount paths a"
proof -
  define P where "P = (\<lambda>d. a \<in> set (selfAndAncestors d))"
  have "getOr0 (aggregatedOf (dirCountsOf paths)) a
        = weighted (dirCountsOf paths) (\<lambda>d. if P d then 1 else 0)"
    unfolding getOr0_aggregatedOf weighted_indicator P_def ..
  also have "\<dots> = sum_list (map (\<lambda>p. if P (dirname p) then 1 else 0) (filter qualifies paths))"
    unfolding dirCountsOf_def weighted_foldl_countStep by (simp add: weighted_def)
  also have "\<dots> = int (length (filter (\<lambda>p. P (dirname p)) (filter qualifies paths)))"
    by (rule sum_list_indicator)
  also have "\<dots> = cumulativeCount paths a"
    unfolding cumulativeCount_def P_def by (simp add: conj_commute)
  finally show ?thesis .
qed

lemma keys_mapSet:
  "map fst (mapSet k v m) = (if k \<in> fst ` set m then map fst m else map fst m @ [k])"
proof (induction m)
  case Nil
  show ?case by simp
next
  case (Cons e m)
  obtain k' v' where e: "e = (k', v')" by (cases e)
  show ?case
  proof (cases "k = k'")
    case True
    then show ?thesis by (simp add: e)
  next
    case False
    with Cons show ?thesis by (simp add: e)
  qed
qed

lemma distinct_mapSet: "distinct (map fst m) \<Longrightarrow> distinct (map fst (mapSet k v m))"
  by (simp add: keys_mapSet)

lemma distinct_addAncestor:
  "distinct (map fst agg) \<Longrightarrow> distinct (map fst (addAncestor parts c agg i))"
  by (simp add: addAncestor_def distinct_mapSet)

lemma distinct_foldl_addAncestor:
  "distinct (map fst agg) \<Longrightarrow> distinct (map fst (foldl (addAncestor parts c) agg is))"
  by (induction "is" arbitrary: agg) (simp_all add: distinct_addAncestor)

lemma distinct_foldl_aggregateDir:
  "distinct (map fst agg) \<Longrightarrow> distinct (map fst (foldl aggregateDir agg dirCounts))"
  by (induction dirCounts arbitrary: agg)
     (simp_all add: aggregateDir_def distinct_foldl_addAncestor del: upt_Suc)

lemma distinct_aggregatedOf: "distinct (map fst (aggregatedOf dirCounts))"
  unfolding aggregatedOf_def by (rule distinct_foldl_aggregateDir) simp

lemma aggregatedOf_entry:
  assumes "(a, v) \<in> set (aggregatedOf dirCounts)"
  shows "getOr0 (aggregatedOf dirCounts) a = v"
proof -
  from assms have "map_of (aggregatedOf dirCounts) a = Some v"
    using distinct_aggregatedOf by (simp add: map_of_eq_Some_iff)
  then show ?thesis by (simp add: getOr0_def)
qed

lemma cumulativeCount_le: "cumulativeCount paths a \<le> int (length paths)"
  by (simp add: cumulativeCount_def)

text \<open>
  Claim C7. When every directory's cumulative count of qualifying documentation files
  is below 3, no candidate passes the threshold filter and \<open>detectDocsPath\<close> returns
  none.
\<close>

theorem detect_below_threshold:
  "(\<forall>a. cumulativeCount paths a < 3) \<Longrightarrow> detectDocsPath paths = None"
proof -
  assume low: "\<forall>a. cumulativeCount paths a < 3"
  have "filter (\<lambda>(d, c). c \<ge> 3) (aggregatedOf (dirCountsOf paths)) = []"
  proof (rule filter_False, clarify)
    fix d c
    assume mem: "(d, c) \<in> set (aggregatedOf (dirCountsOf paths))" and big: "3 \<le> c"
    from mem have "c = getOr0 (aggregatedOf (dirCountsOf paths)) d"
      by (simp add: aggregatedOf_entry)
    also have "\<dots> = cumulativeCount paths d" by (rule aggregated_is_cumulativeCount)
    finally have "c < 3" using low by simp
    with big show False by simp
  qed
  then have "candidatesOf (aggregatedOf (dirCountsOf paths)) = []"
    by (simp add: candidatesOf_def)
  then show ?thesis by (simp add: detectDocsPath_def)
qed

text \<open>
  Witness for C7: the two paths \<open>docs/readme.md\<close> and \<open>docs/contributing.md\<close>.
\<close>

theorem detect_below_threshold_witness:
  "(\<forall>a. cumulativeCount [''docs/readme.md'', ''docs/contributing.md''] a < 3)
   \<and> detectDocsPath [''docs/readme.md'', ''docs/contributing.md''] = None"
proof -
  have h: "\<forall>a. cumulativeCount [''docs/readme.md'', ''docs/contributing.md''] a < 3"
  proof
    fix a
    have "cumulativeCount [''docs/readme.md'', ''docs/contributing.md''] a
          \<le> int (length [''docs/readme.md'', ''docs/contributing.md''])"
      by (rule cumulativeCount_le)
    then show "cumulativeCount [''docs/readme.md'', ''docs/contributing.md''] a < 3" by simp
  qed
  from detect_below_threshold[OF h] h show ?thesis by (rule conjI[rotated])
qed

text \<open>
  Claim C6. The aggregated count of a directory is the sum of the raw counts of all
  counted directories that have it as themselves or as an ancestor; on the raw counts
  of a path list this is the number of qualifying files in the directory's subtree. On
  the five \<open>content/...\<close> paths the aggregated counts are 5 for \<open>content\<close> and at most 2
  for each subdirectory, and \<open>detectDocsPath\<close> returns \<open>content\<close>.
\<close>

theorem detect_aggregates_subtree:
  "getOr0 (aggregatedOf dirCounts) a
     = sum_list (map snd (filter (\<lambda>(d, c). a \<in> set (selfAndAncestors d)) dirCounts))
   \<and> getOr0 (aggregatedOf (dirCountsOf paths)) a = cumulativeCount paths a
   \<and> aggregatedOf (dirCountsOf
        [''content/getting-started/intro.md'', ''content/getting-started/install.md'',
         ''content/guide/routing.md'', ''content/guide/middleware.md'',
         ''content/api/reference.md''])
      = [(''content'', 5), (''content/getting-started'', 2), (''content/guide'', 2),
         (''content/api'', 1)]
   \<and> detectDocsPath
        [''content/getting-started/intro.md'', ''content/getting-started/install.md'',
         ''content/guide/routing.md'', ''content/guide/middleware.md'',
         ''content/api/reference.md'']
      = Some ''content''"
proof (intro conjI)
  show "getOr0 (aggregatedOf dirCounts) a
     = sum_list (map snd (filter (\<lambda>(d, c). a \<in> set (selfAndAncestors d)) dirCounts))"
    by (rule getOr0_aggregatedOf)
  show "getOr0 (aggregatedOf (dirCountsOf paths)) a = cumulativeCount paths a"
    by (rule aggregated_is_cumulativeCount)
  show "aggregatedOf (dirCountsOf
        [''content/getting-started/intro.md'', ''content/getting-started/install.md'',
         ''content/guide/routing.md'', ''content/guide/middleware.md'',
         ''content/api/reference.md''])
      = [(''content'', 5), (''content/getting-started'', 2), (''content/guide'', 2),
         (''content/api'', 1)]"
    by code_simp
  show "detectDocsPath
        [''content/getting-started/intro.md'', ''content/getting-started/install.md'',
         ''content/guide/routing.md'', ''content/guide/middleware.md'',
         ''content/api/reference.md'']
      = Some ''content''"
    by code_simp
qed

end
